theory Spec2Isabelle
  imports Main "HOL-Library.Word" "HOL-Library.Product_Lexorder"
begin

section \<open>JavaScript strings\<close>

text \<open>
  A JavaScript string is a sequence of UTF-16 code units. Indexing (\<open>s[i]\<close>),
  \<open>length\<close>, \<open>split('')\<close> and the character classes of a regular expression without
  the \<open>u\<close> flag all work on code units, so a string is a list of 16-bit words.
\<close>

type_synonym ustring = "16 word list"

text \<open>\<open>String.prototype.startsWith\<close> and \<open>endsWith\<close>.\<close>

definition startsWith :: "ustring \<Rightarrow> ustring \<Rightarrow> bool" where
  "startsWith s p = (take (length p) s = p)"

definition endsWith :: "ustring \<Rightarrow> ustring \<Rightarrow> bool" where
  "endsWith s p = (length p \<le> length s \<and> drop (length s - length p) s = p)"

text \<open>
  \<open>String.prototype.slice(start, end)\<close>: a negative index counts from the end, every
  index is clamped to the string, and an empty string results when the end is not
  after the start.
\<close>

definition slice_index :: "nat \<Rightarrow> int \<Rightarrow> nat" where
  "slice_index len k = (if k < 0 then nat (max (int len + k) 0) else min (nat k) len)"

definition slice :: "ustring \<Rightarrow> int \<Rightarrow> int \<Rightarrow> ustring" where
  "slice s a b =
     (let f = slice_index (length s) a; t = slice_index (length s) b
      in take (t - f) (drop f s))"

text \<open>\<open>s.slice(start)\<close>, the end left out.\<close>

definition slice_from :: "ustring \<Rightarrow> int \<Rightarrow> ustring" where
  "slice_from s a = slice s a (int (length s))"

section \<open>Script classifier (furiganaUtils.ts)\<close>

text \<open>
  \<open>KANJI_RE\<close> is the class of the code units U+3400 to U+4DBF, U+4E00 to U+9FFF and
  U+F900 to U+FAFF; \<open>KANA_RE\<close> is the class U+3040 to U+30FF together with the
  prolonged sound mark U+30FC. Both are single character classes; the predicates
  below are membership of one code unit in the class, and \<open>RegExp.test\<close> of such an
  unanchored pattern holds when some code unit of the string is in the class.
\<close>

definition KANJI_RE :: "16 word \<Rightarrow> bool" where
  "KANJI_RE c = ((0x3400 \<le> c \<and> c \<le> 0x4DBF) \<or> (0x4E00 \<le> c \<and> c \<le> 0x9FFF)
                 \<or> (0xF900 \<le> c \<and> c \<le> 0xFAFF))"

definition KANA_RE :: "16 word \<Rightarrow> bool" where
  "KANA_RE c = ((0x3040 \<le> c \<and> c \<le> 0x30FF) \<or> c = 0x30FC)"

definition hasKanji :: "ustring \<Rightarrow> bool" where
  "hasKanji s = list_ex KANJI_RE s"

definition isKana :: "ustring \<Rightarrow> bool" where
  "isKana ch = list_ex KANA_RE ch"

section \<open>Okurigana splitter (furiganaUtils.ts, splitOkurigana)\<close>

text \<open>
  The result object \<open>{ base, baseReading, prefix: {base, reading}, suffix: {base, reading} }\<close>.
\<close>

record part =
  part_base :: ustring
  part_reading :: ustring

record okurigana =
  base :: ustring
  baseReading :: ustring
  prefix :: part
  suffix :: part

text \<open>
  \<open>hira\<close> is \<open>wanakana.toHiragana\<close>, a function of an external library; it is a
  parameter of everything that calls it.

  The first loop: the state is \<open>(i, prefixBase, prefixRead, readingHira)\<close>.
\<close>

function prefix_loop ::
  "(ustring \<Rightarrow> ustring) \<Rightarrow> ustring \<Rightarrow> nat \<times> ustring \<times> ustring \<times> ustring
     \<Rightarrow> nat \<times> ustring \<times> ustring \<times> ustring" where
  "prefix_loop hira surface (i, prefixBase, prefixRead, readingHira) =
     (if i < length surface then
        (let ch = [surface ! i] in
         if \<not> isKana ch then (i, prefixBase, prefixRead, readingHira)
         else (let h = hira ch in
               if startsWith readingHira h
               then prefix_loop hira surface
                      (i + 1, prefixBase @ ch, prefixRead @ h,
                       slice_from readingHira (int (length h)))
               else (i, prefixBase, prefixRead, readingHira)))
      else (i, prefixBase, prefixRead, readingHira))"
  by pat_completeness auto
termination
  by (relation "measure (\<lambda>(hira, surface, i, rest). length surface - i)") auto

text \<open>
  The second loop: \<open>j\<close> runs down from \<open>surface.length - 1\<close> and may reach \<open>-1\<close>, so it
  is an integer; the state is \<open>(j, suffixBase, suffixRead, readingHira)\<close>. Inside the
  loop \<open>i \<le> j < surface.length\<close>, so \<open>surface[j]\<close> is a code unit of the string.
\<close>

function suffix_loop ::
  "(ustring \<Rightarrow> ustring) \<Rightarrow> ustring \<Rightarrow> nat \<Rightarrow> int \<times> ustring \<times> ustring \<times> ustring
     \<Rightarrow> int \<times> ustring \<times> ustring \<times> ustring" where
  "suffix_loop hira surface i (j, suffixBase, suffixRead, readingHira) =
     (if j \<ge> int i then
        (let ch = [surface ! nat j] in
         if \<not> isKana ch then (j, suffixBase, suffixRead, readingHira)
         else (let h = hira ch in
               if endsWith readingHira h
               then suffix_loop hira surface i
                      (j - 1, ch @ suffixBase, h @ suffixRead,
                       slice readingHira 0 (int (length readingHira) - int (length h)))
               else (j, suffixBase, suffixRead, readingHira)))
      else (j, suffixBase, suffixRead, readingHira))"
  by pat_completeness auto
termination
  by (relation "measure (\<lambda>(hira, surface, i, j, rest). nat (j + 1))") auto

definition splitOkurigana :: "(ustring \<Rightarrow> ustring) \<Rightarrow> ustring \<Rightarrow> ustring \<Rightarrow> okurigana" where
  "splitOkurigana hira surface readingHira =
     (case prefix_loop hira surface (0, [], [], readingHira) of
        (i, prefixBase, prefixRead, readingHira1) \<Rightarrow>
     (case suffix_loop hira surface i (int (length surface) - 1, [], [], readingHira1) of
        (j, suffixBase, suffixRead, readingHira2) \<Rightarrow>
        \<lparr> base = slice surface (int i) (j + 1),
          baseReading = readingHira2,
          prefix = \<lparr> part_base = prefixBase, part_reading = prefixRead \<rparr>,
          suffix = \<lparr> part_base = suffixBase, part_reading = suffixRead \<rparr> \<rparr>))"

section \<open>Segment builder (furiganaUtils.ts, getFuriganaSegmentsSync)\<close>

text \<open>
  A kuromoji token: \<open>reading\<close> may be absent (\<open>undefined\<close> or \<open>null\<close>).
\<close>

record token =
  surface_form :: ustring
  reading :: "ustring option"

record segment =
  kanji :: "ustring list"
  furi :: "ustring list"

text \<open>
  \<open>(t.reading && t.reading !== '*') ? String(t.reading) : surface\<close>, then \<open>hira\<close>:
  an absent or empty reading and the placeholder \<open>*\<close> fall back to the surface.
\<close>

definition token_reading :: "(ustring \<Rightarrow> ustring) \<Rightarrow> token \<Rightarrow> ustring" where
  "token_reading hira t =
     hira (case reading t of
             None \<Rightarrow> surface_form t
           | Some r \<Rightarrow> if r \<noteq> [] \<and> r \<noteq> [0x2A] then r else surface_form t)"

text \<open>
  One conditional pair of pushes, \<open>if (b) { outKanji.push(b); outFuri.push(r) }\<close>, on the
  state \<open>(outKanji, outFuri)\<close>.
\<close>

definition push_if :: "ustring \<Rightarrow> ustring \<Rightarrow> ustring list \<times> ustring list
    \<Rightarrow> ustring list \<times> ustring list" where
  "push_if b r out = (if b \<noteq> [] then (fst out @ [b], snd out @ [r]) else out)"

text \<open>The body of the loop over the tokens.\<close>

definition push_token :: "(ustring \<Rightarrow> ustring) \<Rightarrow> ustring list \<times> ustring list \<Rightarrow> token
    \<Rightarrow> ustring list \<times> ustring list" where
  "push_token hira out t =
     (let surface = surface_form t in
      if surface = [] then out
      else (let reading = token_reading hira t in
            if \<not> hasKanji surface then (fst out @ [surface], snd out @ [reading])
            else (let r = splitOkurigana hira surface reading in
                  push_if (part_base (suffix r)) (part_reading (suffix r))
                    (push_if (base r) (if baseReading r \<noteq> [] then baseReading r else reading)
                       (push_if (part_base (prefix r)) (part_reading (prefix r)) out)))))"

text \<open>
  \<open>tokenizer\<close> is the value of \<open>getTokenizer()\<close>: \<open>None\<close> while no tokenizer is built,
  otherwise its \<open>tokenize\<close> function (kuromoji, an external library).
\<close>

definition getFuriganaSegmentsSync ::
  "(ustring \<Rightarrow> token list) option \<Rightarrow> (ustring \<Rightarrow> ustring) \<Rightarrow> ustring \<Rightarrow> segment list" where
  "getFuriganaSegmentsSync tokenizer hira jp =
     (if jp = [] then [\<lparr> kanji = [], furi = [] \<rparr>]
      else (let tokens = (case tokenizer of
                            Some tokenize \<Rightarrow> tokenize jp
                          | None \<Rightarrow> [\<lparr> surface_form = jp, reading = None \<rparr>]);
                out = foldl (push_token hira) ([], []) tokens
            in if length (fst out) = 0 then [\<lparr> kanji = [jp], furi = [hira jp] \<rparr>]
               else [\<lparr> kanji = fst out, furi = snd out \<rparr>]))"


section \<open>Regular expressions (regex.ts)\<close>

text \<open>
  The four regular expression literals of the repository: the curly and the square
  manual-override patterns, the pattern \<open>a^\<close> that never matches, and the broad
  Japanese span pattern \<open>REGEX_AUTOMATIC\<close>.
\<close>

datatype regex_source = CurlyManual | SquareManual | NeverMatch | Automatic

text \<open>
  A \<open>RegExp\<close> object: its pattern, its \<open>g\<close> flag and its mutable scan position.
\<close>

record regexp =
  rx_source :: regex_source
  rx_global :: bool
  lastIndex :: nat

text \<open>
  A match (\<open>RegExpExecArray\<close>): \<open>index\<close>, the matched text \<open>m[0]\<close> and the groups
  \<open>m[1]\<close>, \<open>m[2]\<close>. Only the two manual patterns have groups, and both groups take
  part in every match of them, so the fallbacks \<open>m[1] ?? ''\<close> and \<open>m[2] ?? ''\<close> of the
  source are never taken; the groups of a match of the automatic pattern are never read
  and are empty here.
\<close>

record regmatch =
  m_index :: nat
  m_0 :: ustring
  m_1 :: ustring
  m_2 :: ustring

text \<open>
  The character classes: everything but the two brackets, the pipe, CR and LF for the
  manual patterns; hiragana, katakana, the CJK blocks and the prolonged sound mark for
  the automatic one.
\<close>

definition curly_class :: "16 word \<Rightarrow> bool" where
  "curly_class c = (c \<noteq> 0x7B \<and> c \<noteq> 0x7D \<and> c \<noteq> 0x7C \<and> c \<noteq> 0x0D \<and> c \<noteq> 0x0A)"

definition square_class :: "16 word \<Rightarrow> bool" where
  "square_class c = (c \<noteq> 0x5B \<and> c \<noteq> 0x5D \<and> c \<noteq> 0x7C \<and> c \<noteq> 0x0D \<and> c \<noteq> 0x0A)"

definition auto_class :: "16 word \<Rightarrow> bool" where
  "auto_class c = ((0x3040 \<le> c \<and> c \<le> 0x309F) \<or> (0x30A0 \<le> c \<and> c \<le> 0x30FF)
                   \<or> (0x3400 \<le> c \<and> c \<le> 0x4DBF) \<or> (0x4E00 \<le> c \<and> c \<le> 0x9FFF)
                   \<or> (0xF900 \<le> c \<and> c \<le> 0xFAFF) \<or> c = 0x30FC)"

text \<open>
  The greedy repetition \<open>(?:\|[class]+)+\<close> on the rest of the input: the number of code
  units it takes. A reading run is followed by a code unit outside the class or by the
  end of the input, so no shorter run and no smaller number of repetitions can be
  followed by the closing bracket: backtracking finds nothing that the greedy scan
  does not.
\<close>

function readings_length :: "(16 word \<Rightarrow> bool) \<Rightarrow> ustring \<Rightarrow> nat" where
  "readings_length cls rest =
     (case rest of
        [] \<Rightarrow> 0
      | c # rest' \<Rightarrow>
          if c = 0x7C \<and> takeWhile cls rest' \<noteq> []
          then 1 + length (takeWhile cls rest') + readings_length cls (dropWhile cls rest')
          else 0)"
  by pat_completeness auto
termination
  by (relation "measure (\<lambda>(cls, rest). length rest)")
     (auto simp: length_dropWhile_le le_imp_less_Suc)

declare readings_length.simps [simp del]

text \<open>
  An attempt to match \<open>OPEN base (PIPE reading)+ CLOSE\<close> at position \<open>p\<close>: the end of the
  match and the two groups.
\<close>

definition manual_match_at ::
  "16 word \<Rightarrow> (16 word \<Rightarrow> bool) \<Rightarrow> 16 word \<Rightarrow> ustring \<Rightarrow> nat \<Rightarrow> (nat \<times> ustring \<times> ustring) option" where
  "manual_match_at opn cls cl s p =
     (case drop p s of
        [] \<Rightarrow> None
      | c # rest \<Rightarrow>
          if c = opn then
            (let b = takeWhile cls rest;
                 rest1 = dropWhile cls rest;
                 n = readings_length cls rest1
             in if b \<noteq> [] \<and> 0 < n \<and> (case drop n rest1 of [] \<Rightarrow> False | d # x \<Rightarrow> d = cl)
                then Some (p + 1 + length b + n + 1, b, take n rest1)
                else None)
          else None)"

definition match_at :: "regex_source \<Rightarrow> ustring \<Rightarrow> nat \<Rightarrow> (nat \<times> ustring \<times> ustring) option" where
  "match_at src s p =
     (case src of
        CurlyManual \<Rightarrow> manual_match_at 0x7B curly_class 0x7D s p
      | SquareManual \<Rightarrow> manual_match_at 0x5B square_class 0x5D s p
      | NeverMatch \<Rightarrow> None
      | Automatic \<Rightarrow>
          (case takeWhile auto_class (drop p s) of
             [] \<Rightarrow> None
           | c # run \<Rightarrow> Some (p + length (c # run), [], [])))"

text \<open>The leftmost match at or after position \<open>p\<close>.\<close>

function search :: "regex_source \<Rightarrow> ustring \<Rightarrow> nat \<Rightarrow> regmatch option" where
  "search src s p =
     (if length s < p then None
      else (case match_at src s p of
              Some (e, g1, g2) \<Rightarrow>
                Some \<lparr> m_index = p, m_0 = take (e - p) (drop p s), m_1 = g1, m_2 = g2 \<rparr>
            | None \<Rightarrow> search src s (p + 1)))"
  by pat_completeness auto
termination
  by (relation "measure (\<lambda>(src, s, p). length s + 1 - p)") auto

declare search.simps [simp del]

text \<open>
  \<open>RegExp.prototype.exec\<close>: a global expression starts at its \<open>lastIndex\<close>, moves it to
  the end of the match, and resets it to \<open>0\<close> when nothing matches; an expression
  without the \<open>g\<close> flag starts at \<open>0\<close> and leaves \<open>lastIndex\<close> alone.
\<close>

definition exec :: "regexp \<Rightarrow> ustring \<Rightarrow> regmatch option \<times> regexp" where
  "exec re s =
     (case search (rx_source re) s (if rx_global re then lastIndex re else 0) of
        None \<Rightarrow> (None, if rx_global re then re\<lparr> lastIndex := 0 \<rparr> else re)
      | Some m \<Rightarrow>
          (Some m, if rx_global re then re\<lparr> lastIndex := m_index m + length (m_0 m) \<rparr> else re))"

text \<open>\<open>new RegExp(re.source, 'g')\<close>: a fresh global expression, scan position \<open>0\<close>.\<close>

definition new_RegExp_g :: "regexp \<Rightarrow> regexp" where
  "new_RegExp_g re = \<lparr> rx_source = rx_source re, rx_global = True, lastIndex = 0 \<rparr>"

datatype NotationStyle = curly | square | none

definition getManualRegex :: "NotationStyle \<Rightarrow> regexp" where
  "getManualRegex style =
     (case style of
        curly \<Rightarrow> \<lparr> rx_source = CurlyManual, rx_global = True, lastIndex = 0 \<rparr>
      | square \<Rightarrow> \<lparr> rx_source = SquareManual, rx_global = True, lastIndex = 0 \<rparr>
      | none \<Rightarrow> \<lparr> rx_source = NeverMatch, rx_global = False, lastIndex = 0 \<rparr>)"


subsection \<open>Every match is non-empty, so a scan moves forward\<close>

lemma manual_match_at_progress:
  "manual_match_at opn cls cl s p = Some (e, g1, g2) \<Longrightarrow> p < e \<and> e \<le> length s"
proof -
  assume a: "manual_match_at opn cls cl s p = Some (e, g1, g2)"
  then obtain c rest where d: "drop p s = c # rest"
    by (cases "drop p s") (simp_all add: manual_match_at_def)
  let ?b = "takeWhile cls rest" and ?r1 = "dropWhile cls rest"
  let ?n = "readings_length cls ?r1"
  from a d have e: "e = p + 1 + length ?b + ?n + 1" and nz: "drop ?n ?r1 \<noteq> []"
    by (auto simp: manual_match_at_def Let_def split: if_splits list.splits)
  from nz have "?n < length ?r1" by simp
  moreover have "length ?b + length ?r1 = length rest"
    by (metis length_append takeWhile_dropWhile_id)
  moreover have "length s = p + length (c # rest)"
  proof -
    have "length (drop p s) = length (c # rest)" using d by simp
    then show ?thesis by simp
  qed
  ultimately show ?thesis using e by simp
qed

lemma match_at_progress:
  "match_at src s p = Some (e, g1, g2) \<Longrightarrow> p < e \<and> e \<le> length s"
proof (cases src)
  case Automatic
  assume a: "match_at src s p = Some (e, g1, g2)"
  then obtain c run where t: "takeWhile auto_class (drop p s) = c # run" and e: "e = p + length (c # run)"
    using Automatic by (auto simp: match_at_def split: list.splits)
  have "length (takeWhile auto_class (drop p s)) \<le> length (drop p s)"
    by (rule length_takeWhile_le)
  then show ?thesis using t e by simp
qed (auto simp: match_at_def dest: manual_match_at_progress)

lemma search_progress:
  "search src s p = Some m \<Longrightarrow> p \<le> m_index m \<and> m_0 m \<noteq> [] \<and> m_index m + length (m_0 m) \<le> length s"
proof (induction src s p rule: search.induct)
  case (1 src s p)
  show ?case
  proof (cases "match_at src s p")
    case None
    then have "search src s (p + 1) = Some m" and "\<not> length s < p"
      using "1.prems" by (auto simp: search.simps[of src s p] split: if_splits)
    then show ?thesis using "1.IH"[OF _ None] by auto
  next
    case (Some r)
    obtain e g1 g2 where r: "r = (e, g1, g2)" by (cases r) auto
    have pe: "p < e \<and> e \<le> length s" using Some r match_at_progress by blast
    have m: "m = \<lparr> m_index = p, m_0 = take (e - p) (drop p s), m_1 = g1, m_2 = g2 \<rparr>"
      using "1.prems" Some r pe by (auto simp: search.simps[of src s p] split: if_splits)
    show ?thesis using pe by (simp add: m min_def)
  qed
qed

lemma exec_progress:
  "exec \<lparr> rx_source = src, rx_global = True, lastIndex = li \<rparr> s = (Some m, re')
     \<Longrightarrow> li < lastIndex re' \<and> lastIndex re' \<le> length s"
proof -
  assume a: "exec \<lparr> rx_source = src, rx_global = True, lastIndex = li \<rparr> s = (Some m, re')"
  then have s: "search src s li = Some m" and r: "lastIndex re' = m_index m + length (m_0 m)"
    by (auto simp: exec_def split: option.splits)
  show ?thesis using search_progress[OF s] r by (cases "m_0 m") auto
qed

subsection \<open>Array and string helpers\<close>

text \<open>\<open>xs[i]\<close> is \<open>undefined\<close> out of range; \<open>a ?? b\<close> replaces \<open>undefined\<close>.\<close>

definition index :: "'a list \<Rightarrow> nat \<Rightarrow> 'a option" where
  "index xs i = (if i < length xs then Some (xs ! i) else None)"

definition nullish :: "'a option \<Rightarrow> 'a \<Rightarrow> 'a" where
  "nullish a b = (case a of None \<Rightarrow> b | Some x \<Rightarrow> x)"

text \<open>\<open>s.split(sep)\<close> for a separator of one code unit, and \<open>s.split('')\<close>.\<close>

fun split_on :: "16 word \<Rightarrow> ustring \<Rightarrow> ustring list" where
  "split_on sep [] = [[]]"
| "split_on sep (c # cs) =
     (if c = sep then [] # split_on sep cs
      else (case split_on sep cs of
              [] \<Rightarrow> [[c]]
            | p # ps \<Rightarrow> (c # p) # ps))"

definition split_chars :: "ustring \<Rightarrow> ustring list" where
  "split_chars s = map (\<lambda>c. [c]) s"

text \<open>\<open>(m[2] ?? '').split('|').slice(1)\<close>.\<close>

definition reading_parts :: "regmatch \<Rightarrow> ustring list" where
  "reading_parts m = drop 1 (split_on 0x7C (m_2 m))"

section \<open>Reading Mode converter (furiganaUtils.ts, convertFurigana)\<close>

text \<open>
  The nodes appended to the fragment: a text node, or a \<open>ruby\<close> element of class
  \<open>furi\<close> whose children are the \<open>rb\<close>/\<open>rt\<close> pairs, given by their text contents.
\<close>

datatype node = TextNode ustring | Ruby "(ustring \<times> ustring) list"

text \<open>
  The exceptions of the model: the \<open>TypeError\<close> of the language, and the \<open>Error\<close> that the
  range set builder of the editor library throws.
\<close>

datatype error = TypeError | Error

definition makeRuby :: "ustring list \<Rightarrow> ustring list \<Rightarrow> node" where
  "makeRuby kanjiArr furiArr =
     Ruby (map (\<lambda>i. (let b = nullish (index kanjiArr i) [];
                          r = nullish (index furiArr i) []
                      in (b, if b \<noteq> [] \<and> hasKanji b then r else [])))
               [0 ..< max (length kanjiArr) (length furiArr)])"

text \<open>
  The alignment of a manual override (lines 281 to 305): one reading covers the whole
  base; several readings are given to the code units of the base one by one, and when
  the counts differ the missing readings are the last one given.
\<close>

definition manual_arrays :: "ustring \<Rightarrow> ustring list \<Rightarrow> ustring list \<times> ustring list" where
  "manual_arrays b parts =
     (if length parts \<le> 1 then ([b], [nullish (index parts 0) []])
      else (let kanjiArr = split_chars b in
            if length parts = length kanjiArr then (kanjiArr, parts)
            else (kanjiArr,
                  map (\<lambda>i. nullish (index parts i)
                               (nullish (index parts (length parts - 1)) []))
                      [0 ..< length kanjiArr])))"

text \<open>
  The body of the loop of \<open>pushAuto\<close> for one match \<open>a\<close>: the text before the match,
  then a \<open>ruby\<close> for a span with kanji or the span as plain text. Destructuring
  \<open>segs[0]\<close> of an empty array would throw.
\<close>

definition pushAuto_match ::
  "(ustring \<Rightarrow> token list) option \<Rightarrow> (ustring \<Rightarrow> ustring) \<Rightarrow> ustring \<Rightarrow> nat \<Rightarrow> node list
     \<Rightarrow> regmatch \<Rightarrow> error + node list" where
  "pushAuto_match tokenizer hira slc lastEnd frag a =
     (let fromPos = m_index a;
          frag1 = (if lastEnd < fromPos then frag @ [TextNode (slice slc (int lastEnd) (int fromPos))]
                   else frag);
          span = m_0 a
      in if hasKanji span then
           (case getFuriganaSegmentsSync tokenizer hira span of
              [] \<Rightarrow> Inl TypeError
            | seg # segs \<Rightarrow> Inr (frag1 @ [makeRuby (kanji seg) (furi seg)]))
         else Inr (frag1 @ [TextNode span]))"

text \<open>
  The loop \<open>while ((a = auto.exec(slice)) !== null)\<close>. The expression \<open>auto\<close> is global
  (it was made with the \<open>g\<close> flag) and lives across the calls of \<open>pushAuto\<close>; its scan
  position is the first component of the state \<open>(auto.lastIndex, last, frag)\<close>
  (\<open>lastEnd\<close> stands for the variable \<open>last\<close> of the source).
\<close>

function pushAuto_loop ::
  "(ustring \<Rightarrow> token list) option \<Rightarrow> (ustring \<Rightarrow> ustring) \<Rightarrow> regex_source \<Rightarrow> ustring
     \<Rightarrow> nat \<times> nat \<times> node list \<Rightarrow> error + nat \<times> nat \<times> node list" where
  "pushAuto_loop tokenizer hira src slc (li, lastEnd, frag) =
     (case exec \<lparr> rx_source = src, rx_global = True, lastIndex = li \<rparr> slc of
        (None, auto') \<Rightarrow> Inr (lastIndex auto', lastEnd, frag)
      | (Some a, auto') \<Rightarrow>
          (case pushAuto_match tokenizer hira slc lastEnd frag a of
             Inl e \<Rightarrow> Inl e
           | Inr frag' \<Rightarrow>
               pushAuto_loop tokenizer hira src slc
                 (lastIndex auto', m_index a + length (m_0 a), frag')))"
  by pat_completeness auto
termination
  by (relation "measure (\<lambda>(tokenizer, hira, src, slc, li, rest). length slc + 1 - li)")
     (auto dest!: exec_progress[OF sym])

declare pushAuto_loop.simps [simp del]

text \<open>\<open>pushAuto(slice)\<close> on the state \<open>(auto.lastIndex, frag)\<close>.\<close>

definition pushAuto ::
  "(ustring \<Rightarrow> token list) option \<Rightarrow> (ustring \<Rightarrow> ustring) \<Rightarrow> regex_source
     \<Rightarrow> nat \<times> node list \<Rightarrow> ustring \<Rightarrow> error + nat \<times> node list" where
  "pushAuto tokenizer hira src st slc =
     (if slc = [] then Inr st
      else (case pushAuto_loop tokenizer hira src slc (fst st, 0, snd st) of
              Inl e \<Rightarrow> Inl e
            | Inr (li, lastEnd, frag) \<Rightarrow>
                Inr (li, if lastEnd < length slc then frag @ [TextNode (slice_from slc (int lastEnd))]
                         else frag)))"

text \<open>
  The loop \<open>while ((m = manual.exec(text)) !== null)\<close> on the state
  \<open>(manual.lastIndex, cursor, auto.lastIndex, frag)\<close>.
\<close>

function manual_loop ::
  "(ustring \<Rightarrow> token list) option \<Rightarrow> (ustring \<Rightarrow> ustring) \<Rightarrow> regex_source \<Rightarrow> regex_source
     \<Rightarrow> ustring \<Rightarrow> nat \<times> nat \<times> nat \<times> node list \<Rightarrow> error + nat \<times> nat \<times> nat \<times> node list" where
  "manual_loop tokenizer hira msrc asrc text (mli, cursor, ali, frag) =
     (case exec \<lparr> rx_source = msrc, rx_global = True, lastIndex = mli \<rparr> text of
        (None, manual') \<Rightarrow> Inr (lastIndex manual', cursor, ali, frag)
      | (Some m, manual') \<Rightarrow>
          (let start = m_index m;
               endPos = start + length (m_0 m)
           in case (if cursor < start
                    then pushAuto tokenizer hira asrc (ali, frag)
                           (slice text (int cursor) (int start))
                    else Inr (ali, frag)) of
                Inl e \<Rightarrow> Inl e
              | Inr (ali', frag') \<Rightarrow>
                  (let arrays = manual_arrays (m_1 m) (reading_parts m)
                   in manual_loop tokenizer hira msrc asrc text
                        (lastIndex manual', endPos, ali',
                         frag' @ [makeRuby (fst arrays) (snd arrays)]))))"
  by pat_completeness auto
termination
  by (relation "measure (\<lambda>(tokenizer, hira, msrc, asrc, text, mli, rest). length text + 1 - mli)")
     (auto dest!: exec_progress[OF sym])

declare manual_loop.simps [simp del]

text \<open>
  The result is the original text node when nothing was appended, otherwise the
  fragment.
\<close>

datatype converted = Unchanged | Fragment "node list"

text \<open>
  \<open>convertFurigana(textNode, REGEX_MANUAL, REGEX_AUTOMATIC)\<close>: \<open>text\<close> is the value of the
  text node. The two expressions passed in are only read at their \<open>source\<close>; they are
  returned with the result to show what the call leaves in them.
\<close>

definition convertFurigana ::
  "(ustring \<Rightarrow> token list) option \<Rightarrow> (ustring \<Rightarrow> ustring) \<Rightarrow> ustring \<Rightarrow> regexp \<Rightarrow> regexp
     \<Rightarrow> (error + converted) \<times> regexp \<times> regexp" where
  "convertFurigana tokenizer hira text REGEX_MANUAL REGEX_AUTOMATIC =
     (let manual = new_RegExp_g REGEX_MANUAL;
          auto = new_RegExp_g REGEX_AUTOMATIC
      in (case manual_loop tokenizer hira (rx_source manual) (rx_source auto) text
                 (lastIndex manual, 0, lastIndex auto, []) of
            Inl e \<Rightarrow> Inl e
          | Inr (mli, cursor, ali, frag) \<Rightarrow>
              (case (if cursor < length text
                     then pushAuto tokenizer hira (rx_source auto) (ali, frag)
                            (slice_from text (int cursor))
                     else Inr (ali, frag)) of
                 Inl e \<Rightarrow> Inl e
               | Inr (ali', frag') \<Rightarrow>
                   Inr (if length frag' = 0 then Unchanged else Fragment frag')),
          REGEX_MANUAL, REGEX_AUTOMATIC))"


section \<open>Live Preview (the view plugin, buildDecorations)\<close>

text \<open>
  A selection range or a visible range of the editor (\<open>from\<close>, \<open>to\<close>); a line of the
  document (\<open>from\<close>, \<open>text\<close>); and an entry of \<open>toAdd\<close>: the interval and the two
  arrays of the \<open>RubyWidget\<close> that replaces it.
\<close>

record range =
  r_from :: nat
  r_to :: nat

record docline =
  l_from :: nat
  l_text :: ustring

record deco =
  d_from :: nat
  d_to :: nat
  d_kanji :: "ustring list"
  d_furi :: "ustring list"

text \<open>
  The editor view as the function reads it: the selection ranges, the visible ranges,
  and the two queries of the document, \<open>lineAt(pos).number\<close> and \<open>line(n)\<close>. The
  document is an object of the editor library; its two queries are parameters.
\<close>

record editor_view =
  selection_ranges :: "range list"
  visibleRanges :: "range list"
  lineAt :: "nat \<Rightarrow> nat"
  line :: "nat \<Rightarrow> docline"

definition rangesOverlap :: "nat \<Rightarrow> nat \<Rightarrow> nat \<Rightarrow> nat \<Rightarrow> bool" where
  "rangesOverlap aFrom aTo bFrom bTo = (aFrom < bTo \<and> bFrom < aTo)"

text \<open>
  \<open>inlineBacktickRanges\<close>: the state of the loop is \<open>(i, open, ranges)\<close>; the backtick is
  the code unit \<open>0x60\<close>.
\<close>

function inlineBacktick_loop ::
  "ustring \<Rightarrow> nat \<times> nat option \<times> (nat \<times> nat) list \<Rightarrow> (nat \<times> nat) list" where
  "inlineBacktick_loop lineText (i, opn, ranges) =
     (if i < length lineText then
        (if lineText ! i = 0x60 then
           (case opn of
              None \<Rightarrow> inlineBacktick_loop lineText (i + 1, Some i, ranges)
            | Some j \<Rightarrow> inlineBacktick_loop lineText (i + 1, None, ranges @ [(j, i + 1)]))
         else inlineBacktick_loop lineText (i + 1, opn, ranges))
      else ranges)"
  by pat_completeness auto
termination
  by (relation "measure (\<lambda>(lineText, i, rest). length lineText - i)") auto

declare inlineBacktick_loop.simps [simp del]

definition inlineBacktickRanges :: "ustring \<Rightarrow> (nat \<times> nat) list" where
  "inlineBacktickRanges lineText = inlineBacktick_loop lineText (0, None, [])"

text \<open>
  \<open>text.matchAll(re)\<close>: a \<open>TypeError\<close> for an expression without the \<open>g\<close> flag; otherwise
  the matches of a clone of \<open>re\<close> that starts at the scan position of \<open>re\<close> and is run
  with \<open>exec\<close> until it finds nothing. The expression passed in is not written to; it
  is returned beside the result.
\<close>

function matchAll_loop :: "regex_source \<Rightarrow> ustring \<Rightarrow> nat \<Rightarrow> regmatch list" where
  "matchAll_loop src s li =
     (case exec \<lparr> rx_source = src, rx_global = True, lastIndex = li \<rparr> s of
        (None, matcher') \<Rightarrow> []
      | (Some m, matcher') \<Rightarrow> m # matchAll_loop src s (lastIndex matcher'))"
  by pat_completeness auto
termination
  by (relation "measure (\<lambda>(src, s, li). length s + 1 - li)")
     (auto dest!: exec_progress[OF sym])

declare matchAll_loop.simps [simp del]

definition matchAll :: "ustring \<Rightarrow> regexp \<Rightarrow> (error + regmatch list) \<times> regexp" where
  "matchAll s re =
     (if \<not> rx_global re then (Inl TypeError, re)
      else (Inr (matchAll_loop (rx_source re) s (lastIndex re)), re))"

text \<open>\<open>selections.some(r => rangesOverlap(r.from, r.to, from, to))\<close>.\<close>

definition selected :: "range list \<Rightarrow> nat \<Rightarrow> nat \<Rightarrow> bool" where
  "selected selections f t = list_ex (\<lambda>r. rangesOverlap (r_from r) (r_to r) f t) selections"

text \<open>
  The widget of a manual override (lines 182 to 191): the readings are the parts as
  they are written, with no padding.
\<close>

definition manual_deco :: "nat \<Rightarrow> regmatch \<Rightarrow> deco" where
  "manual_deco lineFrom m =
     (let parts = reading_parts m
      in \<lparr> d_from = m_index m + lineFrom,
           d_to = m_index m + lineFrom + length (m_0 m),
           d_kanji = (if length parts = 1 then [m_1 m] else split_chars (m_1 m)),
           d_furi = parts \<rparr>)"

text \<open>
  The loop over the manual matches of a line, on the state \<open>(manualRanges, toAdd)\<close>:
  the range is recorded before the selection is looked at.
\<close>

fun manual_scan ::
  "range list \<Rightarrow> nat \<Rightarrow> regmatch list \<Rightarrow> (nat \<times> nat) list \<times> deco list
     \<Rightarrow> (nat \<times> nat) list \<times> deco list" where
  "manual_scan selections lineFrom [] st = st"
| "manual_scan selections lineFrom (m # ms) (manualRanges, toAdd) =
     (let f = m_index m + lineFrom;
          t = f + length (m_0 m);
          manualRanges' = manualRanges @ [(f, t)]
      in if selected selections f t
         then manual_scan selections lineFrom ms (manualRanges', toAdd)
         else manual_scan selections lineFrom ms (manualRanges', toAdd @ [manual_deco lineFrom m]))"

text \<open>
  The loop over the automatic matches of a line, on the state \<open>toAdd\<close>: a match is
  skipped when it overlaps a selection, a manual range, or an inline backtick range of
  the line, and when the segmentation gives nothing.
\<close>

fun auto_scan ::
  "(ustring \<Rightarrow> token list) option \<Rightarrow> (ustring \<Rightarrow> ustring) \<Rightarrow> range list \<Rightarrow> (nat \<times> nat) list
     \<Rightarrow> docline \<Rightarrow> regmatch list \<Rightarrow> deco list \<Rightarrow> deco list" where
  "auto_scan tokenizer hira selections manualRanges ln [] toAdd = toAdd"
| "auto_scan tokenizer hira selections manualRanges ln (a # as) toAdd =
     (let localFrom = m_index a;
          localTo = localFrom + length (m_0 a);
          f = localFrom + l_from ln;
          t = localTo + l_from ln;
          span = m_0 a
      in if selected selections f t
         then auto_scan tokenizer hira selections manualRanges ln as toAdd
         else if list_ex (\<lambda>(mf, mt). rangesOverlap mf mt f t) manualRanges
         then auto_scan tokenizer hira selections manualRanges ln as toAdd
         else if list_ex (\<lambda>(bf, bt). rangesOverlap (bf + l_from ln) (bt + l_from ln) f t)
                   (inlineBacktickRanges (l_text ln))
         then auto_scan tokenizer hira selections manualRanges ln as toAdd
         else (case getFuriganaSegmentsSync tokenizer hira span of
                 [] \<Rightarrow> auto_scan tokenizer hira selections manualRanges ln as toAdd
               | seg # segs \<Rightarrow>
                   if length (kanji seg) = 0
                   then auto_scan tokenizer hira selections manualRanges ln as toAdd
                   else auto_scan tokenizer hira selections manualRanges ln as
                          (toAdd @ [\<lparr> d_from = f, d_to = t,
                                      d_kanji = kanji seg, d_furi = furi seg \<rparr>])))"

text \<open>
  The decorations of one line outside a fence, in the order in which they are given to
  the builder. The comparator \<open>(a.from - b.from) || (a.to - b.to)\<close> orders by \<open>from\<close>,
  then by \<open>to\<close>, and \<open>Array.prototype.sort\<close> is stable.
\<close>

definition line_decorations ::
  "NotationStyle \<Rightarrow> (ustring \<Rightarrow> token list) option \<Rightarrow> (ustring \<Rightarrow> ustring) \<Rightarrow> regexp
     \<Rightarrow> range list \<Rightarrow> docline \<Rightarrow> (error + deco list) \<times> regexp" where
  "line_decorations style tokenizer hira REGEX_AUTOMATIC selections ln =
     (case fst (matchAll (l_text ln) (getManualRegex style)) of
        Inl e \<Rightarrow> (Inl e, REGEX_AUTOMATIC)
      | Inr manualMatches \<Rightarrow>
          (case manual_scan selections (l_from ln) manualMatches ([], []) of
             (manualRanges, toAdd) \<Rightarrow>
          (case matchAll (l_text ln) REGEX_AUTOMATIC of
             (Inl e, auto) \<Rightarrow> (Inl e, auto)
           | (Inr autoMatches, auto) \<Rightarrow>
               (Inr (sort_key (\<lambda>d. (d_from d, d_to d))
                       (auto_scan tokenizer hira selections manualRanges ln autoMatches toAdd)),
                auto))))"

text \<open>
  \<open>String.prototype.trim\<close> removes white space and line terminators at both ends.
\<close>

definition js_whitespace :: "16 word \<Rightarrow> bool" where
  "js_whitespace c = ((0x09 \<le> c \<and> c \<le> 0x0D) \<or> c = 0x20 \<or> c = 0xA0 \<or> c = 0x1680
                      \<or> (0x2000 \<le> c \<and> c \<le> 0x200A) \<or> c = 0x2028 \<or> c = 0x2029
                      \<or> c = 0x202F \<or> c = 0x205F \<or> c = 0x3000 \<or> c = 0xFEFF)"

definition trim :: "ustring \<Rightarrow> ustring" where
  "trim s = rev (dropWhile js_whitespace (rev (dropWhile js_whitespace s)))"

text \<open>The fence toggle: a line whose trimmed text starts with three backticks.\<close>

definition fence_toggle :: "bool \<Rightarrow> ustring \<Rightarrow> bool" where
  "fence_toggle insideFence text =
     (if startsWith (trim text) [0x60, 0x60, 0x60] then \<not> insideFence else insideFence)"

text \<open>
  \<open>RangeSetBuilder\<close> of the editor library, as far as a pass uses it. The builder keeps
  its ranges in layers, and of each layer it remembers the last range. In
  \<open>add(from, to, value)\<close> a range that starts before the end of the last range of a layer
  does not fit that layer: when it also starts before the start of that last range the
  builder throws (ranges must be added sorted by \<open>from\<close>), otherwise the range is given to
  the next layer. A range that starts at or after the end of the last range becomes the
  last range of the layer. Every value of a pass is a replace decoration that is not
  inclusive; the start side of such a value lies above its end side, so a range that
  starts exactly where the last one ends fits the layer. A layer is modelled by the
  interval of its last range, a builder without ranges has no layer, and \<open>added\<close> is the
  sequence of the calls of \<open>add\<close> that returned, in their order.
\<close>

record RangeSetBuilder =
  added :: "deco list"
  layers :: "(nat \<times> nat) list"

fun addInner :: "nat \<Rightarrow> nat \<Rightarrow> (nat \<times> nat) list \<Rightarrow> error + (nat \<times> nat) list" where
  "addInner f t [] = Inr [(f, t)]"
| "addInner f t ((lastFrom, lastTo) # nextLayer) =
     (if f < lastTo then
        (if f < lastFrom then Inl Error
         else (case addInner f t nextLayer of
                 Inl e \<Rightarrow> Inl e
               | Inr nextLayer' \<Rightarrow> Inr ((lastFrom, lastTo) # nextLayer')))
      else Inr ((f, t) # nextLayer))"

definition builder_add :: "RangeSetBuilder \<Rightarrow> deco \<Rightarrow> error + RangeSetBuilder" where
  "builder_add builder d =
     (case addInner (d_from d) (d_to d) (layers builder) of
        Inl e \<Rightarrow> Inl e
      | Inr ls \<Rightarrow> Inr \<lparr> added = added builder @ [d], layers = ls \<rparr>)"

text \<open>\<open>for (const { from, to, dec } of toAdd) builder.add(from, to, dec)\<close>.\<close>

fun add_all :: "deco list \<Rightarrow> RangeSetBuilder \<Rightarrow> error + RangeSetBuilder" where
  "add_all [] builder = Inr builder"
| "add_all (d # ds) builder =
     (case builder_add builder d of
        Inl e \<Rightarrow> Inl e
      | Inr builder' \<Rightarrow> add_all ds builder')"

text \<open>
  The loop over the line numbers of one visible range, on the state
  \<open>(insideFence, builder, REGEX_AUTOMATIC)\<close>. An exception ends the pass.
\<close>

fun lines_loop ::
  "NotationStyle \<Rightarrow> (ustring \<Rightarrow> token list) option \<Rightarrow> (ustring \<Rightarrow> ustring) \<Rightarrow> editor_view
     \<Rightarrow> nat list \<Rightarrow> bool \<times> RangeSetBuilder \<times> regexp
     \<Rightarrow> (error + bool \<times> RangeSetBuilder) \<times> regexp" where
  "lines_loop style tokenizer hira view [] (insideFence, builder, auto) =
     (Inr (insideFence, builder), auto)"
| "lines_loop style tokenizer hira view (n # ns) (insideFence, builder, auto) =
     (let ln = line view n;
          insideFence' = fence_toggle insideFence (l_text ln)
      in if insideFence' then lines_loop style tokenizer hira view ns (insideFence', builder, auto)
         else (case line_decorations style tokenizer hira auto (selection_ranges view) ln of
                 (Inl e, auto') \<Rightarrow> (Inl e, auto')
               | (Inr toAdd, auto') \<Rightarrow>
                   (case add_all toAdd builder of
                      Inl e \<Rightarrow> (Inl e, auto')
                    | Inr builder' \<Rightarrow>
                        lines_loop style tokenizer hira view ns (insideFence', builder', auto'))))"

text \<open>The loop over the visible ranges.\<close>

fun ranges_loop ::
  "NotationStyle \<Rightarrow> (ustring \<Rightarrow> token list) option \<Rightarrow> (ustring \<Rightarrow> ustring) \<Rightarrow> editor_view
     \<Rightarrow> range list \<Rightarrow> bool \<times> RangeSetBuilder \<times> regexp
     \<Rightarrow> (error + bool \<times> RangeSetBuilder) \<times> regexp" where
  "ranges_loop style tokenizer hira view [] (insideFence, builder, auto) =
     (Inr (insideFence, builder), auto)"
| "ranges_loop style tokenizer hira view (vr # vrs) (insideFence, builder, auto) =
     (let first = lineAt view (r_from vr);
          lastLine = lineAt view (r_to vr)
      in (case lines_loop style tokenizer hira view [first ..< Suc lastLine]
                 (insideFence, builder, auto) of
            (Inl e, auto') \<Rightarrow> (Inl e, auto')
          | (Inr (insideFence', builder'), auto') \<Rightarrow>
              ranges_loop style tokenizer hira view vrs (insideFence', builder', auto')))"

text \<open>
  \<open>buildDecorations(view)\<close> for the notation style the plugin was made with. The result
  is the sequence given to the builder, in the order of the calls of \<open>builder.add\<close>,
  and the shared expression \<open>REGEX_AUTOMATIC\<close> as the pass leaves it.
\<close>

definition buildDecorations ::
  "NotationStyle \<Rightarrow> (ustring \<Rightarrow> token list) option \<Rightarrow> (ustring \<Rightarrow> ustring) \<Rightarrow> regexp
     \<Rightarrow> editor_view \<Rightarrow> (error + deco list) \<times> regexp" where
  "buildDecorations style tokenizer hira REGEX_AUTOMATIC view =
     (case ranges_loop style tokenizer hira view (visibleRanges view)
             (False, \<lparr> added = [], layers = [] \<rparr>, REGEX_AUTOMATIC) of
        (Inl e, auto) \<Rightarrow> (Inl e, auto)
      | (Inr (insideFence, builder), auto) \<Rightarrow> (Inr (added builder), auto))"

text \<open>\<open>getAutoRegex()\<close> as the module is loaded: the literal with the \<open>g\<close> flag.\<close>

definition getAutoRegex :: regexp where
  "getAutoRegex = \<lparr> rx_source = Automatic, rx_global = True, lastIndex = 0 \<rparr>"


section \<open>Candidates, exclusion zones and the lines of a pass\<close>

text \<open>
  Names for the parts of a pass that the properties below speak about. They are not
  functions of the source; each is read off the loops of \<open>buildDecorations\<close>.
\<close>

text \<open>
  The interval of a match in document offsets: \<open>[index + line.from, index + line.from + m[0].length)\<close>.
\<close>

definition match_range :: "nat \<Rightarrow> regmatch \<Rightarrow> nat \<times> nat" where
  "match_range lineFrom m = (m_index m + lineFrom, m_index m + lineFrom + length (m_0 m))"

text \<open>
  The Manual candidates of a line: the matches of the manual pattern of the style, as
  \<open>matchAll\<close> lists them for a fresh expression.
\<close>

definition manual_matches :: "NotationStyle \<Rightarrow> ustring \<Rightarrow> regmatch list" where
  "manual_matches style text = matchAll_loop (rx_source (getManualRegex style)) text 0"

text \<open>
  The Automatic candidates of a line: the matches of \<open>REGEX_AUTOMATIC\<close>, listed from its
  scan position.
\<close>

definition auto_matches :: "regexp \<Rightarrow> ustring \<Rightarrow> regmatch list" where
  "auto_matches re text = matchAll_loop (rx_source re) text (lastIndex re)"

text \<open>
  The three tests of the automatic loop on the interval of a match: no selection range,
  no manual range and no inline backtick range of the line overlaps it.
\<close>

definition auto_keep :: "range list \<Rightarrow> (nat \<times> nat) list \<Rightarrow> docline \<Rightarrow> regmatch \<Rightarrow> bool" where
  "auto_keep selections manualRanges ln a =
     (\<not> selected selections (fst (match_range (l_from ln) a)) (snd (match_range (l_from ln) a))
      \<and> \<not> list_ex (\<lambda>(mf, mt). rangesOverlap mf mt (fst (match_range (l_from ln) a)) (snd (match_range (l_from ln) a))) manualRanges
      \<and> \<not> list_ex (\<lambda>(bf, bt). rangesOverlap (bf + l_from ln) (bt + l_from ln)
                 (fst (match_range (l_from ln) a)) (snd (match_range (l_from ln) a)))
             (inlineBacktickRanges (l_text ln)))"

text \<open>
  The entry that the automatic loop adds for a match: its interval and the arrays of the
  first segment.
\<close>

definition auto_deco ::
  "(ustring \<Rightarrow> token list) option \<Rightarrow> (ustring \<Rightarrow> ustring) \<Rightarrow> nat \<Rightarrow> regmatch \<Rightarrow> deco" where
  "auto_deco tokenizer hira lineFrom a =
     (case getFuriganaSegmentsSync tokenizer hira (m_0 a) of
        [] \<Rightarrow> \<lparr> d_from = fst (match_range lineFrom a), d_to = snd (match_range lineFrom a),
                d_kanji = [], d_furi = [] \<rparr>
      | seg # segs \<Rightarrow> \<lparr> d_from = fst (match_range lineFrom a), d_to = snd (match_range lineFrom a),
                d_kanji = kanji seg, d_furi = furi seg \<rparr>)"

text \<open>
  The manual entries of a line: the manual matches that overlap no selection range.
\<close>

definition manual_kept :: "NotationStyle \<Rightarrow> range list \<Rightarrow> docline \<Rightarrow> deco list" where
  "manual_kept style selections ln =
     map (manual_deco (l_from ln))
       (filter (\<lambda>m. \<not> selected selections (fst (match_range (l_from ln) m))
                                           (snd (match_range (l_from ln) m)))
          (manual_matches style (l_text ln)))"

text \<open>
  The automatic entries of a line. The manual ranges tested are those of all the manual
  matches of the line, emitted or not.
\<close>

definition auto_kept ::
  "NotationStyle \<Rightarrow> (ustring \<Rightarrow> token list) option \<Rightarrow> (ustring \<Rightarrow> ustring) \<Rightarrow> regexp
     \<Rightarrow> range list \<Rightarrow> docline \<Rightarrow> deco list" where
  "auto_kept style tokenizer hira re selections ln =
     map (auto_deco tokenizer hira (l_from ln))
       (filter (auto_keep selections
                  (map (match_range (l_from ln)) (manual_matches style (l_text ln))) ln)
          (auto_matches re (l_text ln)))"

text \<open>
  What a line outside a fence gives to the builder.
\<close>

definition line_output ::
  "NotationStyle \<Rightarrow> (ustring \<Rightarrow> token list) option \<Rightarrow> (ustring \<Rightarrow> ustring) \<Rightarrow> regexp
     \<Rightarrow> range list \<Rightarrow> docline \<Rightarrow> deco list" where
  "line_output style tokenizer hira re selections ln =
     sort_key (\<lambda>d. (d_from d, d_to d))
       (manual_kept style selections ln @ auto_kept style tokenizer hira re selections ln)"

text \<open>
  The line numbers a pass visits, in order: for each visible range, from the line of its
  start to the line of its end.
\<close>

definition visited_lines :: "editor_view \<Rightarrow> nat list" where
  "visited_lines view =
     concat (map (\<lambda>vr. [lineAt view (r_from vr) ..< Suc (lineAt view (r_to vr))])
                 (visibleRanges view))"

text \<open>
  The visited lines that are processed: those for which \<open>insideFence\<close> is false after the
  toggle.
\<close>

fun unfenced :: "editor_view \<Rightarrow> bool \<Rightarrow> nat list \<Rightarrow> nat list" where
  "unfenced view insideFence [] = []"
| "unfenced view insideFence (n # ns) =
     (if fence_toggle insideFence (l_text (line view n))
      then unfenced view True ns
      else n # unfenced view False ns)"

text \<open>
  The value of \<open>insideFence\<close> after a list of lines.
\<close>

definition fence_after :: "editor_view \<Rightarrow> bool \<Rightarrow> nat list \<Rightarrow> bool" where
  "fence_after view insideFence ns =
     foldl (\<lambda>b n. fence_toggle b (l_text (line view n))) insideFence ns"

text \<open>
  Two entries whose intervals do not overlap.
\<close>

definition apart :: "deco \<Rightarrow> deco \<Rightarrow> bool" where
  "apart a b = (\<not> rangesOverlap (d_from a) (d_to a) (d_from b) (d_to b))"

text \<open>
  An entry with a non-empty interval inside the extent of a line.
\<close>

definition within_line :: "docline \<Rightarrow> deco \<Rightarrow> bool" where
  "within_line ln d = (l_from ln \<le> d_from d \<and> d_from d < d_to d
                        \<and> d_to d \<le> l_from ln + length (l_text ln))"

text \<open>
  A view of a document of one line, all of it visible.
\<close>

definition single_line_view :: "ustring \<Rightarrow> range list \<Rightarrow> editor_view" where
  "single_line_view txt sel =
     \<lparr> selection_ranges = sel,
       visibleRanges = [\<lparr> r_from = 0, r_to = length txt \<rparr>],
       lineAt = (\<lambda>pos. 1),
       line = (\<lambda>n. \<lparr> l_from = 0, l_text = txt \<rparr>) \<rparr>"

text \<open>
  A view of a document of two lines, all of it visible; the second line starts after the
  line break.
\<close>

definition two_line_view :: "ustring \<Rightarrow> ustring \<Rightarrow> range list \<Rightarrow> editor_view" where
  "two_line_view txt1 txt2 sel =
     \<lparr> selection_ranges = sel,
       visibleRanges = [\<lparr> r_from = 0, r_to = length txt1 + 1 + length txt2 \<rparr>],
       lineAt = (\<lambda>pos. if pos \<le> length txt1 then 1 else 2),
       line = (\<lambda>n. if n = 1 then \<lparr> l_from = 0, l_text = txt1 \<rparr>
                    else \<lparr> l_from = length txt1 + 1, l_text = txt2 \<rparr>) \<rparr>"

text \<open>
  A view of a document of one line of which two stretches are visible.
\<close>

definition two_ranges_view :: "ustring \<Rightarrow> range \<Rightarrow> range \<Rightarrow> editor_view" where
  "two_ranges_view txt vr1 vr2 =
     \<lparr> selection_ranges = [],
       visibleRanges = [vr1, vr2],
       lineAt = (\<lambda>pos. 1),
       line = (\<lambda>n. \<lparr> l_from = 0, l_text = txt \<rparr>) \<rparr>"

text \<open>
  The line \<open>kore-wa {kanji|kan|ji} desu\<close>: three kana, the manual override of U+6F22 U+5B57
  with the readings U+304B U+3093 and U+3058, two kana.
\<close>

definition mixed_text :: ustring where
  "mixed_text = [0x3053, 0x308C, 0x306F, 0x7B, 0x6F22, 0x5B57, 0x7C, 0x304B, 0x3093, 0x7C, 0x3058,
                 0x7D, 0x3067, 0x3059]"

text \<open>
  What the pass gives for that line while the cursor is at offset 13, inside the last two
  kana.
\<close>

definition edited_output :: "deco list" where
  "edited_output =
     [\<lparr> d_from = 0, d_to = 3, d_kanji = [[0x3053, 0x308C, 0x306F]],
        d_furi = [[0x3053, 0x308C, 0x306F]] \<rparr>,
      \<lparr> d_from = 3, d_to = 12, d_kanji = [[0x6F22], [0x5B57]],
        d_furi = [[0x304B, 0x3093], [0x3058]] \<rparr>]"

section \<open>Properties of the splitter and of the segment builder\<close>

lemma slice_from_drop: "slice_from s (int n) = drop n s"
  by (simp add: slice_from_def slice_def slice_index_def Let_def min_def)

lemma slice_nonneg: "0 \<le> b \<Longrightarrow> slice s (int a) b = take (min (nat b) (length s) - min a (length s)) (drop a s)"
  by (simp add: slice_def slice_index_def Let_def min_def)

lemma kanji_not_kana: "KANJI_RE c \<Longrightarrow> \<not> KANA_RE c"
  unfolding KANJI_RE_def KANA_RE_def by (auto simp: word_le_def word_less_def not_le)

lemma isKana_single: "isKana [c] = KANA_RE c"
  by (simp add: isKana_def)

lemma prefix_loop_inv:
  "prefix_loop hira s (i, pb, pr, r) = (i', pb', pr', r') \<Longrightarrow> i \<le> length s \<Longrightarrow> pb = take i s \<Longrightarrow>
     i \<le> i' \<and> i' \<le> length s \<and> pb' = take i' s \<and> (\<forall>k. i \<le> k \<and> k < i' \<longrightarrow> KANA_RE (s ! k))"
proof (induction hira s "(i, pb, pr, r)" arbitrary: i pb pr r rule: prefix_loop.induct)
  case (1 hira surface i prefixBase prefixRead readingHira)
  show ?case
  proof (cases "i < length surface \<and> KANA_RE (surface ! i) \<and> startsWith readingHira (hira [surface ! i])")
    case True
    then have step: "prefix_loop hira surface (i + 1, prefixBase @ [surface ! i], prefixRead @ hira [surface ! i],
                       slice_from readingHira (int (length (hira [surface ! i])))) = (i', pb', pr', r')"
      using "1.prems"(1) by (simp add: isKana_single Let_def)
    have tk: "prefixBase @ [surface ! i] = take (i + 1) surface"
      using True "1.prems"(3) by (simp add: take_Suc_conv_app_nth)
    have "i + 1 \<le> i' \<and> i' \<le> length surface \<and> pb' = take i' surface \<and> (\<forall>k. i + 1 \<le> k \<and> k < i' \<longrightarrow> KANA_RE (surface ! k))"
      using "1.hyps"[OF _ refl _ refl _ step _ tk] True by (simp add: isKana_single)
    then show ?thesis using True
      by (metis Suc_eq_plus1 Suc_leD le_antisym not_less_eq_eq)
  next
    case False
    then have "prefix_loop hira surface (i, prefixBase, prefixRead, readingHira) = (i, prefixBase, prefixRead, readingHira)"
      by (auto simp: isKana_single Let_def)
    then show ?thesis using "1.prems" by auto
  qed
qed

lemma suffix_loop_inv:
  "suffix_loop hira s i (j, sb, sr, r) = (j', sb', sr', r') \<Longrightarrow> int i - 1 \<le> j \<Longrightarrow> j < int (length s) \<Longrightarrow>
     sb = drop (nat (j + 1)) s \<Longrightarrow>
     int i - 1 \<le> j' \<and> j' \<le> j \<and> sb' = drop (nat (j' + 1)) s \<and> (\<forall>k. j' < int k \<and> int k \<le> j \<longrightarrow> KANA_RE (s ! k))"
proof (induction hira s i "(j, sb, sr, r)" arbitrary: j sb sr r rule: suffix_loop.induct)
  case (1 hira surface i j suffixBase suffixRead readingHira)
  show ?case
  proof (cases "j \<ge> int i \<and> KANA_RE (surface ! nat j) \<and> endsWith readingHira (hira [surface ! nat j])")
    case True
    let ?h = "hira [surface ! nat j]"
    have step: "suffix_loop hira surface i (j - 1, [surface ! nat j] @ suffixBase, ?h @ suffixRead,
                  slice readingHira 0 (int (length readingHira) - int (length ?h))) = (j', sb', sr', r')"
      using True "1.prems"(1) by (simp add: isKana_single Let_def)
    have jn: "nat (j - 1 + 1) = nat j" "nat (j + 1) = Suc (nat j)" "nat j < length surface"
      using True "1.prems"(3) by auto
    have dr: "[surface ! nat j] @ suffixBase = drop (nat (j - 1 + 1)) surface"
      using "1.prems"(4) jn by (simp add: Cons_nth_drop_Suc)
    have ih: "int i - 1 \<le> j' \<and> j' \<le> j - 1 \<and> sb' = drop (nat (j' + 1)) surface
        \<and> (\<forall>k. j' < int k \<and> int k \<le> j - 1 \<longrightarrow> KANA_RE (surface ! k))"
      using "1.hyps"[OF _ refl _ refl _ step _ _ dr] True "1.prems"(3) by (simp add: isKana_single)
    have "\<forall>k. j' < int k \<and> int k \<le> j \<longrightarrow> KANA_RE (surface ! k)"
    proof (intro allI impI)
      fix k assume k: "j' < int k \<and> int k \<le> j"
      show "KANA_RE (surface ! k)"
      proof (cases "int k = j")
        case True
        then have "k = nat j" by simp
        then show ?thesis using \<open>j \<ge> int i \<and> KANA_RE (surface ! nat j) \<and> endsWith readingHira (hira [surface ! nat j])\<close> by simp
      next
        case False
        then show ?thesis using ih k by auto
      qed
    qed
    then show ?thesis using ih by auto
  next
    case False
    then have "suffix_loop hira surface i (j, suffixBase, suffixRead, readingHira) = (j, suffixBase, suffixRead, readingHira)"
      by (auto simp: isKana_single Let_def)
    then show ?thesis using "1.prems" by auto
  qed
qed


lemma splitOkurigana_eq:
  obtains i j r2 pr sr where
    "splitOkurigana hira s r = \<lparr> base = slice s (int i) (j + 1), baseReading = r2,
        prefix = \<lparr> part_base = take i s, part_reading = pr \<rparr>,
        suffix = \<lparr> part_base = drop (nat (j + 1)) s, part_reading = sr \<rparr> \<rparr>"
    "i \<le> length s" "int i - 1 \<le> j" "j < int (length s)"
    "\<forall>k. k < i \<longrightarrow> KANA_RE (s ! k)"
    "\<forall>k. j < int k \<and> k < length s \<longrightarrow> KANA_RE (s ! k)"
proof -
  obtain i pb pr r1 where p: "prefix_loop hira s (0, [], [], r) = (i, pb, pr, r1)"
    by (metis prod_cases4)
  obtain j sb sr r2 where q: "suffix_loop hira s i (int (length s) - 1, [], [], r1) = (j, sb, sr, r2)"
    by (metis prod_cases4)
  have pi: "0 \<le> i \<and> i \<le> length s \<and> pb = take i s \<and> (\<forall>k. 0 \<le> k \<and> k < i \<longrightarrow> KANA_RE (s ! k))"
    by (rule prefix_loop_inv[OF p]) simp_all
  have qi: "int i - 1 \<le> j \<and> j \<le> int (length s) - 1 \<and> sb = drop (nat (j + 1)) s
      \<and> (\<forall>k. j < int k \<and> int k \<le> int (length s) - 1 \<longrightarrow> KANA_RE (s ! k))"
    by (rule suffix_loop_inv[OF q]) (use pi in simp_all)
  show thesis
  proof (rule that[of i j r2 pr sr])
    show "splitOkurigana hira s r = \<lparr> base = slice s (int i) (j + 1), baseReading = r2,
        prefix = \<lparr> part_base = take i s, part_reading = pr \<rparr>,
        suffix = \<lparr> part_base = drop (nat (j + 1)) s, part_reading = sr \<rparr> \<rparr>"
      using p q pi qi by (simp add: splitOkurigana_def)
    show "i \<le> length s" using pi by simp
    show "int i - 1 \<le> j" using qi by simp
    show "j < int (length s)" using qi by simp
    show "\<forall>k. k < i \<longrightarrow> KANA_RE (s ! k)" using pi by simp
    show "\<forall>k. j < int k \<and> k < length s \<longrightarrow> KANA_RE (s ! k)" using qi by auto
  qed
qed

lemma slice_mid: "i \<le> length s \<Longrightarrow> int i - 1 \<le> j \<Longrightarrow> j < int (length s) \<Longrightarrow>
   slice s (int i) (j + 1) = take (nat (j + 1) - i) (drop i s)"
  by (simp add: slice_def slice_index_def Let_def min_def)

text \<open>
  Claim C5. For every surface string and every reading (and whatever the kana
  conversion returns), the three base parts that \<open>splitOkurigana\<close> returns, put together
  in the order prefix, core, suffix, are the surface string itself.
\<close>

theorem splitOkurigana_concat:
  "part_base (prefix (splitOkurigana hira surface readingHira))
     @ base (splitOkurigana hira surface readingHira)
     @ part_base (suffix (splitOkurigana hira surface readingHira)) = surface"
proof -
  obtain i j r2 pr sr where
    eq: "splitOkurigana hira surface readingHira = \<lparr> base = slice surface (int i) (j + 1), baseReading = r2,
        prefix = \<lparr> part_base = take i surface, part_reading = pr \<rparr>,
        suffix = \<lparr> part_base = drop (nat (j + 1)) surface, part_reading = sr \<rparr> \<rparr>"
    and b: "i \<le> length surface" "int i - 1 \<le> j" "j < int (length surface)"
    by (rule splitOkurigana_eq)
  have le: "i \<le> nat (j + 1)" using b by linarith
  have "take i surface @ take (nat (j + 1) - i) (drop i surface) = take (nat (j + 1)) surface"
    using le by (metis le_add_diff_inverse take_add)
  then show ?thesis
    using eq slice_mid[OF b] by (simp flip: append_assoc)
qed

lemma hasKanji_nth: "hasKanji s = (\<exists>k<length s. KANJI_RE (s ! k))"
  unfolding hasKanji_def list_ex_iff by (metis in_set_conv_nth)

lemma splitOkurigana_base_kanji:
  assumes "hasKanji surface"
  shows "hasKanji (base (splitOkurigana hira surface readingHira))"
proof -
  obtain i j r2 pr sr where
    eq: "splitOkurigana hira surface readingHira = \<lparr> base = slice surface (int i) (j + 1), baseReading = r2,
        prefix = \<lparr> part_base = take i surface, part_reading = pr \<rparr>,
        suffix = \<lparr> part_base = drop (nat (j + 1)) surface, part_reading = sr \<rparr> \<rparr>"
    and b: "i \<le> length surface" "int i - 1 \<le> j" "j < int (length surface)"
    and ka: "\<forall>k. k < i \<longrightarrow> KANA_RE (surface ! k)"
       "\<forall>k. j < int k \<and> k < length surface \<longrightarrow> KANA_RE (surface ! k)"
    by (rule splitOkurigana_eq)
  obtain k where k: "k < length surface" "KANJI_RE (surface ! k)"
    using assms by (auto simp: hasKanji_nth)
  have nk: "\<not> KANA_RE (surface ! k)" using k kanji_not_kana by blast
  have ik: "i \<le> k" using ka(1) nk by (meson not_le)
  have kj: "int k \<le> j" using ka(2) nk k(1) by (meson not_le)
  have "surface ! k \<in> set (take (nat (j + 1) - i) (drop i surface))"
  proof -
    have "k - i < nat (j + 1) - i" using ik kj by linarith
    moreover have "k - i < length (drop i surface)" using ik k(1) by simp
    moreover have "drop i surface ! (k - i) = surface ! k" using ik k(1) by simp
    ultimately show ?thesis
      by (metis in_set_conv_nth length_take min_less_iff_conj nth_take)
  qed
  then show ?thesis
    using eq slice_mid[OF b] k(2) by (auto simp: hasKanji_def list_ex_iff)
qed


lemma push_if_lengths:
  "length (fst (push_if b r out)) - length (fst out) = (if b \<noteq> [] then 1 else 0)"
  "length (snd (push_if b r out)) - length (snd out) = (if b \<noteq> [] then 1 else 0)"
  "length (fst out) \<le> length (fst (push_if b r out))"
  "length (snd out) \<le> length (snd (push_if b r out))"
  by (simp_all add: push_if_def)

lemma push_if_paired:
  "length (fst out) = length (snd out) \<Longrightarrow> length (fst (push_if b r out)) = length (snd (push_if b r out))"
  by (simp add: push_if_def)

lemma push_if_grows:
  "length (fst (push_if b r out)) = length (fst out) + (if b \<noteq> [] then 1 else 0)"
  "length (snd (push_if b r out)) = length (snd out) + (if b \<noteq> [] then 1 else 0)"
  by (simp_all add: push_if_def)

lemma push_token_grows:
  "\<exists>n. length (fst (push_token hira out t)) = length (fst out) + n
     \<and> length (snd (push_token hira out t)) = length (snd out) + n"
  by (simp add: push_token_def Let_def push_if_grows)

lemma push_token_paired:
  "length (fst out) = length (snd out) \<Longrightarrow>
   length (fst (push_token hira out t)) = length (snd (push_token hira out t))"
  using push_token_grows[of hira out t] by auto

lemma foldl_push_token_paired:
  "length (fst out) = length (snd out) \<Longrightarrow>
   length (fst (foldl (push_token hira) out ts)) = length (snd (foldl (push_token hira) out ts))"
  by (induction ts arbitrary: out) (simp_all add: push_token_paired)

text \<open>
  Claim C4. For every non-empty input, with or without a tokenizer,
  \<open>getFuriganaSegmentsSync\<close> returns one segment whose two arrays have the same length,
  which is at least one; and every token adds as many chunks to \<open>outKanji\<close> as to
  \<open>outFuri\<close>.
\<close>

theorem getFuriganaSegmentsSync_paired:
  "jp \<noteq> [] \<Longrightarrow>
     (\<exists>seg. getFuriganaSegmentsSync tokenizer hira jp = [seg]
        \<and> length (kanji seg) = length (furi seg) \<and> 1 \<le> length (kanji seg))
     \<and> length (fst (push_token hira (ks, fs) t)) - length ks
         = length (snd (push_token hira (ks, fs) t)) - length fs"
proof
  assume ne: "jp \<noteq> []"
  define tokens where "tokens = (case tokenizer of Some tokenize \<Rightarrow> tokenize jp
                          | None \<Rightarrow> [\<lparr> surface_form = jp, reading = None \<rparr>])"
  define out where "out = foldl (push_token hira) ([], []) tokens"
  have p: "length (fst out) = length (snd out)"
    unfolding out_def by (rule foldl_push_token_paired) simp
  have g: "getFuriganaSegmentsSync tokenizer hira jp =
      (if length (fst out) = 0 then [\<lparr> kanji = [jp], furi = [hira jp] \<rparr>]
       else [\<lparr> kanji = fst out, furi = snd out \<rparr>])"
    using ne by (simp add: getFuriganaSegmentsSync_def Let_def out_def tokens_def)
  show "\<exists>seg. getFuriganaSegmentsSync tokenizer hira jp = [seg]
        \<and> length (kanji seg) = length (furi seg) \<and> 1 \<le> length (kanji seg)"
  proof (cases "length (fst out) = 0")
    case True
    then show ?thesis using g by simp
  next
    case False
    then have "1 \<le> length (fst out)" by (cases "fst out") simp_all
    moreover have "getFuriganaSegmentsSync tokenizer hira jp = [\<lparr> kanji = fst out, furi = snd out \<rparr>]"
      using g False by simp
    ultimately show ?thesis using p by (intro exI[of _ "\<lparr> kanji = fst out, furi = snd out \<rparr>"]) simp
  qed
next
  show "length (fst (push_token hira (ks, fs) t)) - length ks
         = length (snd (push_token hira (ks, fs) t)) - length fs"
    using push_token_grows[of hira "(ks, fs)" t] by auto
qed

text \<open>
  Claim C9. For every input the result is a list of exactly one segment, and for the
  empty input this segment has two empty arrays.
\<close>

theorem getFuriganaSegmentsSync_single:
  "length (getFuriganaSegmentsSync tokenizer hira jp) = 1
   \<and> getFuriganaSegmentsSync tokenizer hira [] = [\<lparr> kanji = [], furi = [] \<rparr>]"
  by (simp add: getFuriganaSegmentsSync_def Let_def)

lemma zip_push_if:
  "length (fst out) = length (snd out) \<Longrightarrow>
   set (zip (fst out) (snd out)) \<subseteq> set (zip (fst (push_if b r out)) (snd (push_if b r out)))"
  by (auto simp: push_if_def)

text \<open>
  Claim C10. For a surface that has a kanji, and for every reading, the core that
  \<open>splitOkurigana\<close> returns is not empty (it holds a kanji, since both loops stop at a
  code unit that is not kana); so for a token with such a surface the guarded push of
  the segment builder fires: the core and its reading are a pair of the two arrays after
  the token.
\<close>

theorem splitOkurigana_core_kept:
  assumes "hasKanji (surface_form t)" and "length ks = length fs"
  shows "base (splitOkurigana hira (surface_form t) readingHira) \<noteq> []
     \<and> hasKanji (base (splitOkurigana hira (surface_form t) readingHira))
     \<and> (base (splitOkurigana hira (surface_form t) (token_reading hira t)),
         if baseReading (splitOkurigana hira (surface_form t) (token_reading hira t)) \<noteq> []
         then baseReading (splitOkurigana hira (surface_form t) (token_reading hira t))
         else token_reading hira t)
        \<in> set (zip (fst (push_token hira (ks, fs) t)) (snd (push_token hira (ks, fs) t)))"
proof -
  let ?r = "splitOkurigana hira (surface_form t) (token_reading hira t)"
  let ?core = "if baseReading ?r \<noteq> [] then baseReading ?r else token_reading hira t"
  have k: "hasKanji (base ?r)" using assms(1) by (rule splitOkurigana_base_kanji)
  then have ne: "base ?r \<noteq> []" by (auto simp: hasKanji_def)
  have sne: "surface_form t \<noteq> []" using assms(1) by (auto simp: hasKanji_def)
  let ?o1 = "push_if (part_base (prefix ?r)) (part_reading (prefix ?r)) (ks, fs)"
  let ?o2 = "push_if (base ?r) ?core ?o1"
  have l1: "length (fst ?o1) = length (snd ?o1)" using assms(2) by (simp add: push_if_paired)
  have l2: "length (fst ?o2) = length (snd ?o2)" using l1 by (rule push_if_paired)
  let ?o3 = "push_if (part_base (suffix ?r)) (part_reading (suffix ?r)) ?o2"
  have mem: "(base ?r, ?core) \<in> set (zip (fst ?o2) (snd ?o2))"
    using ne l1 by (simp add: push_if_def)
  have eq: "push_token hira (ks, fs) t = ?o3"
    using assms(1) sne by (simp add: push_token_def Let_def)
  have sub: "set (zip (fst ?o2) (snd ?o2)) \<subseteq> set (zip (fst ?o3) (snd ?o3))"
    by (rule zip_push_if[OF l2])
  have "(base ?r, ?core) \<in> set (zip (fst ?o3) (snd ?o3))"
    using mem sub by (rule subsetD[rotated])
  then have "(base ?r, ?core) \<in> set (zip (fst (push_token hira (ks, fs) t)) (snd (push_token hira (ks, fs) t)))"
    by (simp only: eq)
  moreover have k': "hasKanji (base (splitOkurigana hira (surface_form t) readingHira))"
    using assms(1) by (rule splitOkurigana_base_kanji)
  moreover from k' have "base (splitOkurigana hira (surface_form t) readingHira) \<noteq> []"
    by (auto simp: hasKanji_def)
  ultimately show ?thesis by blast
qed


subsection \<open>The theorems at a concrete token\<close>

text \<open>
  The word \<open>o-nega-i\<close> (U+304A U+9858 U+3044) with the reading U+304A U+306D U+304C
  U+3044, already in hiragana, so that the identity stands for the kana conversion.
\<close>

theorem getFuriganaSegmentsSync_paired_witness:
  "[0x304A, 0x9858, 0x3044] \<noteq> ([] :: ustring)
   \<and> (\<exists>seg. getFuriganaSegmentsSync None (\<lambda>s. s) [0x304A, 0x9858, 0x3044] = [seg]
         \<and> length (kanji seg) = length (furi seg) \<and> 1 \<le> length (kanji seg))
   \<and> length (fst (push_token (\<lambda>s. s) ([], [])
          \<lparr> surface_form = [0x304A, 0x9858, 0x3044],
            reading = Some [0x304A, 0x306D, 0x304C, 0x3044] \<rparr>)) - length ([] :: ustring list)
       = length (snd (push_token (\<lambda>s. s) ([], [])
          \<lparr> surface_form = [0x304A, 0x9858, 0x3044],
            reading = Some [0x304A, 0x306D, 0x304C, 0x3044] \<rparr>)) - length ([] :: ustring list)"
proof -
  have h: "[0x304A, 0x9858, 0x3044] \<noteq> ([] :: ustring)" by simp
  show ?thesis
    using h getFuriganaSegmentsSync_paired [OF h, of None "\<lambda>s. s" "[]" "[]"
      "\<lparr> surface_form = [0x304A, 0x9858, 0x3044],
         reading = Some [0x304A, 0x306D, 0x304C, 0x3044] \<rparr>"]
    by blast
qed

theorem splitOkurigana_core_kept_witness:
  "hasKanji (surface_form \<lparr> surface_form = [0x304A, 0x9858, 0x3044],
                            reading = Some [0x304A, 0x306D, 0x304C, 0x3044] \<rparr>)
   \<and> length ([] :: ustring list) = length ([] :: ustring list)
   \<and> base (splitOkurigana (\<lambda>s. s) [0x304A, 0x9858, 0x3044] [0x304A, 0x306D, 0x304C, 0x3044])
       = [0x9858]
   \<and> ([0x9858], [0x306D, 0x304C])
       \<in> set (zip (fst (push_token (\<lambda>s. s) ([], [])
                         \<lparr> surface_form = [0x304A, 0x9858, 0x3044],
                           reading = Some [0x304A, 0x306D, 0x304C, 0x3044] \<rparr>))
                    (snd (push_token (\<lambda>s. s) ([], [])
                         \<lparr> surface_form = [0x304A, 0x9858, 0x3044],
                           reading = Some [0x304A, 0x306D, 0x304C, 0x3044] \<rparr>)))"
proof -
  let ?t = "\<lparr> surface_form = [0x304A, 0x9858, 0x3044],
              reading = Some [0x304A, 0x306D, 0x304C, 0x3044] \<rparr>"
  have h: "hasKanji (surface_form ?t)"
    by (simp add: hasKanji_def KANJI_RE_def)
  have r: "token_reading (\<lambda>s. s) ?t = [0x304A, 0x306D, 0x304C, 0x3044]"
    by (simp add: token_reading_def)
  have b: "base (splitOkurigana (\<lambda>s. s) [0x304A, 0x9858, 0x3044] [0x304A, 0x306D, 0x304C, 0x3044])
             = [0x9858]"
    by code_simp
  have br: "baseReading (splitOkurigana (\<lambda>s. s) [0x304A, 0x9858, 0x3044]
              [0x304A, 0x306D, 0x304C, 0x3044]) = [0x306D, 0x304C]"
    by code_simp
  show ?thesis
    using h b splitOkurigana_core_kept [OF h, of "[]" "[]" "\<lambda>s. s"
        "[0x304A, 0x306D, 0x304C, 0x3044]"]
    by (simp add: r br)
qed

section \<open>The matches of a scan\<close>

lemma exec_global_Some:
  "exec \<lparr> rx_source = src, rx_global = True, lastIndex = li \<rparr> s = (Some m, re')
   \<Longrightarrow> li \<le> m_index m \<and> m_0 m \<noteq> [] \<and> m_index m + length (m_0 m) \<le> length s
       \<and> lastIndex re' = m_index m + length (m_0 m)"
proof -
  assume a: "exec \<lparr> rx_source = src, rx_global = True, lastIndex = li \<rparr> s = (Some m, re')"
  then have s: "search src s li = Some m" and r: "lastIndex re' = m_index m + length (m_0 m)"
    by (auto simp: exec_def split: option.splits)
  show ?thesis using search_progress[OF s] r by simp
qed

lemma matchAll_loop_matches:
  "m \<in> set (matchAll_loop src s li) \<Longrightarrow>
     li \<le> m_index m \<and> m_0 m \<noteq> [] \<and> m_index m + length (m_0 m) \<le> length s"
proof (induction src s li rule: matchAll_loop.induct)
  case (1 src s li)
  obtain r re' where e: "exec \<lparr> rx_source = src, rx_global = True, lastIndex = li \<rparr> s = (r, re')"
    by (cases "exec \<lparr> rx_source = src, rx_global = True, lastIndex = li \<rparr> s")
  show ?case
  proof (cases r)
    case None
    then show ?thesis using "1.prems" e by (simp add: matchAll_loop.simps[of src s li])
  next
    case (Some m0)
    have p: "li \<le> m_index m0 \<and> m_0 m0 \<noteq> [] \<and> m_index m0 + length (m_0 m0) \<le> length s
       \<and> lastIndex re' = m_index m0 + length (m_0 m0)"
      using e Some exec_global_Some by blast
    have "m = m0 \<or> m \<in> set (matchAll_loop src s (lastIndex re'))"
      using "1.prems" e Some by (simp add: matchAll_loop.simps[of src s li])
    then show ?thesis
    proof
      assume "m = m0" then show ?thesis using p by simp
    next
      assume "m \<in> set (matchAll_loop src s (lastIndex re'))"
      then have "lastIndex re' \<le> m_index m \<and> m_0 m \<noteq> [] \<and> m_index m + length (m_0 m) \<le> length s"
        using "1.IH"[OF e[symmetric] Some] by simp
      then show ?thesis using p by simp
    qed
  qed
qed

lemma matchAll_loop_ordered:
  "sorted_wrt (\<lambda>a b. m_index a + length (m_0 a) \<le> m_index b) (matchAll_loop src s li)"
proof (induction src s li rule: matchAll_loop.induct)
  case (1 src s li)
  obtain r re' where e: "exec \<lparr> rx_source = src, rx_global = True, lastIndex = li \<rparr> s = (r, re')"
    by (cases "exec \<lparr> rx_source = src, rx_global = True, lastIndex = li \<rparr> s")
  show ?case
  proof (cases r)
    case None
    then show ?thesis using e by (simp add: matchAll_loop.simps[of src s li])
  next
    case (Some m0)
    have p: "lastIndex re' = m_index m0 + length (m_0 m0)"
      using e Some exec_global_Some by blast
    have eq: "matchAll_loop src s li = m0 # matchAll_loop src s (lastIndex re')"
      using e Some by (simp add: matchAll_loop.simps[of src s li])
    have "\<forall>m \<in> set (matchAll_loop src s (lastIndex re')). m_index m0 + length (m_0 m0) \<le> m_index m"
      using matchAll_loop_matches[of _ src s "lastIndex re'"] p by auto
    then show ?thesis using "1.IH"[OF e[symmetric] Some] eq by simp
  qed
qed

section \<open>The loops of a line as filters\<close>

lemma manual_scan_eq:
  "manual_scan selections lf ms (R, A) =
     (R @ map (match_range lf) ms,
      A @ map (manual_deco lf) (filter (\<lambda>m. \<not> selected selections (fst (match_range lf m)) (snd (match_range lf m))) ms))"
  by (induction ms arbitrary: R A) (simp_all add: Let_def match_range_def)

lemma segs_nonempty:
  assumes ne: "span \<noteq> []"
  shows "\<exists>seg. getFuriganaSegmentsSync tokenizer hira span = [seg] \<and> kanji seg \<noteq> []"
proof -
  define out where "out = foldl (push_token hira) ([], [])
     (case tokenizer of Some tokenize \<Rightarrow> tokenize span
      | None \<Rightarrow> [\<lparr> surface_form = span, reading = None \<rparr>])"
  have g: "getFuriganaSegmentsSync tokenizer hira span =
      (if length (fst out) = 0 then [\<lparr> kanji = [span], furi = [hira span] \<rparr>]
       else [\<lparr> kanji = fst out, furi = snd out \<rparr>])"
    using ne by (simp add: getFuriganaSegmentsSync_def Let_def out_def)
  show ?thesis by (cases "fst out = []") (simp_all add: g)
qed

lemma auto_scan_step:
  assumes "m_0 a \<noteq> []"
  shows "auto_scan tokenizer hira selections manualRanges ln (a # as) A =
     auto_scan tokenizer hira selections manualRanges ln as
       (if auto_keep selections manualRanges ln a
        then A @ [auto_deco tokenizer hira (l_from ln) a] else A)"
proof -
  obtain seg where seg: "getFuriganaSegmentsSync tokenizer hira (m_0 a) = [seg]" "kanji seg \<noteq> []"
    using segs_nonempty[of "m_0 a" tokenizer hira] assms by auto
  show ?thesis
    using seg
    by (simp add: auto_keep_def auto_deco_def match_range_def Let_def add.commute add.left_commute)
qed

lemma auto_scan_eq:
  "\<forall>a \<in> set as. m_0 a \<noteq> [] \<Longrightarrow>
   auto_scan tokenizer hira selections manualRanges ln as A =
     A @ map (auto_deco tokenizer hira (l_from ln)) (filter (auto_keep selections manualRanges ln) as)"
proof (induction as arbitrary: A)
  case Nil
  then show ?case by simp
next
  case (Cons a as)
  have "auto_scan tokenizer hira selections manualRanges ln (a # as) A =
     auto_scan tokenizer hira selections manualRanges ln as
       (if auto_keep selections manualRanges ln a
        then A @ [auto_deco tokenizer hira (l_from ln) a] else A)"
    using Cons.prems by (intro auto_scan_step) simp
  also have "\<dots> = (if auto_keep selections manualRanges ln a
        then A @ [auto_deco tokenizer hira (l_from ln) a] else A)
      @ map (auto_deco tokenizer hira (l_from ln)) (filter (auto_keep selections manualRanges ln) as)"
    using Cons.prems by (intro Cons.IH) simp
  finally show ?case by simp
qed

lemma auto_deco_range [simp]:
  "d_from (auto_deco tokenizer hira lf a) = fst (match_range lf a)"
  "d_to (auto_deco tokenizer hira lf a) = snd (match_range lf a)"
  by (simp_all add: auto_deco_def split: list.splits)

lemma manual_deco_range [simp]:
  "d_from (manual_deco lf m) = fst (match_range lf m)"
  "d_to (manual_deco lf m) = snd (match_range lf m)"
  by (simp_all add: manual_deco_def match_range_def Let_def)

lemma line_decorations_eq:
  "line_decorations style tokenizer hira re selections ln =
     (if style = none \<or> \<not> rx_global re then (Inl TypeError, re)
      else (Inr (line_output style tokenizer hira re selections ln), re))"
proof (cases "style = none")
  case True
  then show ?thesis
    by (simp add: line_decorations_def matchAll_def getManualRegex_def)
next
  case False
  then have g: "rx_global (getManualRegex style)" "lastIndex (getManualRegex style) = 0"
    by (cases style; simp add: getManualRegex_def)+
  have m: "fst (matchAll (l_text ln) (getManualRegex style)) = Inr (manual_matches style (l_text ln))"
    using g by (simp add: matchAll_def manual_matches_def)
  show ?thesis
  proof (cases "rx_global re")
    case False
    then show ?thesis
      by (simp add: line_decorations_def m manual_scan_eq matchAll_def)
  next
    case True
    have ne: "\<forall>a \<in> set (auto_matches re (l_text ln)). m_0 a \<noteq> []"
      using matchAll_loop_matches by (auto simp: auto_matches_def)
    have a: "matchAll (l_text ln) re = (Inr (auto_matches re (l_text ln)), re)"
      using True by (simp add: matchAll_def auto_matches_def)
    show ?thesis
      using True \<open>style \<noteq> none\<close>
      by (simp add: line_decorations_def m a manual_scan_eq auto_scan_eq[OF ne]
            line_output_def manual_kept_def auto_kept_def)
  qed
qed

section \<open>A pass as one loop over the visited lines\<close>

lemma unfenced_append:
  "unfenced view b (ns @ ms) = unfenced view b ns @ unfenced view (fence_after view b ns) ms"
  by (induction ns arbitrary: b) (simp_all add: fence_after_def)

lemma fence_after_append:
  "fence_after view b (ns @ ms) = fence_after view (fence_after view b ns) ms"
  by (simp add: fence_after_def)

lemma builder_add_added:
  "builder_add builder d = Inr builder' \<Longrightarrow> added builder' = added builder @ [d]"
  by (auto simp: builder_add_def split: sum.splits)

lemma add_all_added:
  "add_all ds builder = Inr builder' \<Longrightarrow> added builder' = added builder @ ds"
proof (induction ds arbitrary: builder)
  case Nil
  then show ?case by simp
next
  case (Cons d ds)
  then obtain b1 where b1: "builder_add builder d = Inr b1" "add_all ds b1 = Inr builder'"
    by (auto split: sum.splits)
  show ?case using builder_add_added[OF b1(1)] Cons.IH[OF b1(2)] by simp
qed

lemma lines_loop_auto:
  "snd (lines_loop style tokenizer hira view ns (f, builder, re)) = re"
proof (induction ns arbitrary: f builder)
  case Nil
  then show ?case by simp
next
  case (Cons n ns)
  show ?case
    by (simp add: Let_def line_decorations_eq Cons.IH split: sum.splits)
qed

lemma lines_loop_Inr:
  "lines_loop style tokenizer hira view ns (f, builder, re) = (Inr (f', builder'), re') \<Longrightarrow>
     f' = fence_after view f ns
     \<and> added builder' =
         added builder @ concat (map (\<lambda>n. line_output style tokenizer hira re
                                             (selection_ranges view) (line view n))
                                    (unfenced view f ns))"
proof (induction ns arbitrary: f builder)
  case Nil
  then show ?case by (simp add: fence_after_def)
next
  case (Cons n ns)
  show ?case
  proof (cases "fence_toggle f (l_text (line view n))")
    case True
    then have "lines_loop style tokenizer hira view ns (True, builder, re) = (Inr (f', builder'), re')"
      using Cons.prems by (simp add: Let_def)
    then show ?thesis using Cons.IH True by (simp add: fence_after_def)
  next
    case False
    let ?out = "line_output style tokenizer hira re (selection_ranges view) (line view n)"
    from Cons.prems False obtain b1 where
      b1: "add_all ?out builder = Inr b1"
        "lines_loop style tokenizer hira view ns (False, b1, re) = (Inr (f', builder'), re')"
      by (auto simp: Let_def line_decorations_eq split: if_splits sum.splits)
    show ?thesis
      using add_all_added[OF b1(1)] Cons.IH[OF b1(2)] False by (simp add: fence_after_def)
  qed
qed

lemma lines_loop_append:
  "lines_loop style tokenizer hira view (ns @ ms) (f, builder, re) =
     (case lines_loop style tokenizer hira view ns (f, builder, re) of
        (Inl e, re') \<Rightarrow> (Inl e, re')
      | (Inr (f', builder'), re') \<Rightarrow> lines_loop style tokenizer hira view ms (f', builder', re'))"
proof (induction ns arbitrary: f builder re)
  case Nil
  then show ?case by simp
next
  case (Cons n ns)
  show ?case
  proof (cases "fence_toggle f (l_text (line view n))")
    case True
    then show ?thesis by (simp add: Let_def Cons.IH)
  next
    case False
    obtain r re1 where ld: "line_decorations style tokenizer hira re (selection_ranges view)
                              (line view n) = (r, re1)"
      by (cases "line_decorations style tokenizer hira re (selection_ranges view) (line view n)")
    show ?thesis
    proof (cases r)
      case (Inl e)
      then show ?thesis using False ld by (simp add: Let_def)
    next
      case (Inr toAdd)
      show ?thesis
      proof (cases "add_all toAdd builder")
        case (Inl e)
        then show ?thesis using False ld Inr by (simp add: Let_def)
      next
        case (Inr b1)
        then show ?thesis using False ld \<open>r = Inr toAdd\<close> by (simp add: Let_def Cons.IH)
      qed
    qed
  qed
qed

lemma ranges_loop_eq:
  "ranges_loop style tokenizer hira view vrs (f, builder, re) =
     lines_loop style tokenizer hira view
       (concat (map (\<lambda>vr. [lineAt view (r_from vr) ..< Suc (lineAt view (r_to vr))]) vrs))
       (f, builder, re)"
proof (induction vrs arbitrary: f builder re)
  case Nil
  then show ?case by simp
next
  case (Cons vr vrs)
  show ?case
    by (simp add: Let_def lines_loop_append Cons.IH split: sum.splits prod.splits del: upt_Suc)
qed

lemma buildDecorations_auto:
  "snd (buildDecorations style tokenizer hira re view) = re"
proof -
  have "snd (ranges_loop style tokenizer hira view (visibleRanges view)
               (False, \<lparr> added = [], layers = [] \<rparr>, re)) = re"
    by (simp add: ranges_loop_eq lines_loop_auto)
  then show ?thesis
    by (auto simp: buildDecorations_def split: prod.splits sum.splits)
qed

section \<open>The entries of a line are apart and sorted\<close>

lemma matches_apart:
  assumes "sorted_wrt (\<lambda>a b. m_index a + length (m_0 a) \<le> m_index b) ms"
    and "\<And>m. m \<in> set ms \<Longrightarrow> d_from (f m) = fst (match_range lf m) \<and> d_to (f m) = snd (match_range lf m)"
  shows "sorted_wrt apart (map f (filter P ms))"
proof -
  have "sorted_wrt (\<lambda>a b. m_index a + length (m_0 a) \<le> m_index b) (filter P ms)"
    using assms(1) by (rule sorted_wrt_filter)
  then have "sorted_wrt (\<lambda>a b. apart (f a) (f b)) (filter P ms)"
  proof (rule sorted_wrt_mono_rel[rotated])
    fix a b assume "a \<in> set (filter P ms)" "b \<in> set (filter P ms)"
      and "m_index a + length (m_0 a) \<le> m_index b"
    then show "apart (f a) (f b)"
      using assms(2)[of a] assms(2)[of b]
      by (simp add: apart_def rangesOverlap_def match_range_def)
  qed
  then show ?thesis by (simp add: sorted_wrt_map)
qed

lemma manual_kept_apart: "sorted_wrt apart (manual_kept style selections ln)"
  unfolding manual_kept_def manual_matches_def
  by (rule matches_apart[OF matchAll_loop_ordered]) simp

lemma auto_kept_apart: "sorted_wrt apart (auto_kept style tokenizer hira re selections ln)"
  unfolding auto_kept_def auto_matches_def
  by (rule matches_apart[OF matchAll_loop_ordered]) simp

lemma manual_auto_apart:
  assumes "x \<in> set (manual_kept style selections ln)"
    and "y \<in> set (auto_kept style tokenizer hira re selections ln)"
  shows "apart x y"
proof -
  obtain m where m: "m \<in> set (manual_matches style (l_text ln))" "x = manual_deco (l_from ln) m"
    using assms(1) by (auto simp: manual_kept_def)
  obtain a where a: "auto_keep selections
        (map (match_range (l_from ln)) (manual_matches style (l_text ln))) ln a"
      "y = auto_deco tokenizer hira (l_from ln) a"
    using assms(2) by (auto simp: auto_kept_def)
  have "\<not> rangesOverlap (fst (match_range (l_from ln) m)) (snd (match_range (l_from ln) m))
          (fst (match_range (l_from ln) a)) (snd (match_range (l_from ln) a))"
    using a(1) m(1) by (force simp: auto_keep_def list_ex_iff)
  then show ?thesis using m(2) a(2) by (simp add: apart_def)
qed

lemma kept_apart:
  "sorted_wrt apart (manual_kept style selections ln @ auto_kept style tokenizer hira re selections ln)"
  by (simp add: sorted_wrt_append manual_kept_apart auto_kept_apart manual_auto_apart)

lemma match_within:
  assumes "m \<in> set (matchAll_loop src (l_text ln) li)"
    and "d_from d = fst (match_range (l_from ln) m)" "d_to d = snd (match_range (l_from ln) m)"
  shows "within_line ln d"
proof -
  have "m_0 m \<noteq> []" "m_index m + length (m_0 m) \<le> length (l_text ln)"
    using matchAll_loop_matches[OF assms(1)] by simp_all
  then show ?thesis using assms(2,3)
    by (cases "m_0 m") (simp_all add: within_line_def match_range_def)
qed

lemma kept_within:
  assumes "d \<in> set (manual_kept style selections ln @ auto_kept style tokenizer hira re selections ln)"
  shows "within_line ln d"
  using assms
  by (auto simp: manual_kept_def auto_kept_def manual_matches_def auto_matches_def
           intro!: match_within)

text \<open>Sorting a list of non-empty, pairwise apart intervals by (from, to) puts them end to start.\<close>

lemma sort_apart:
  assumes ne: "\<forall>d \<in> set D. d_from d < d_to d"
    and ap: "sorted_wrt apart D"
  shows "sorted_wrt (\<lambda>a b. d_to a \<le> d_from b) (sort_key (\<lambda>d. (d_from d, d_to d)) D)"
proof -
  let ?out = "sort_key (\<lambda>d. (d_from d, d_to d)) D"
  have self: "\<And>d. d \<in> set D \<Longrightarrow> \<not> apart d d"
    using ne by (simp add: apart_def rangesOverlap_def)
  have dist: "distinct D"
  proof (rule ccontr)
    assume "\<not> distinct D"
    then obtain i j where ij: "i < j" "j < length D" "D ! i = D ! j"
      by (metis distinct_conv_nth nat_neq_iff)
    have "apart (D ! i) (D ! j)"
      using ap ij(1,2) unfolding sorted_wrt_iff_nth_less by blast
    then have "apart (D ! j) (D ! j)" using ij(3) by simp
    then show False using self[of "D ! j"] ij(2) by simp
  qed
  have sym: "\<And>a b. apart a b \<Longrightarrow> apart b a"
    by (auto simp: apart_def rangesOverlap_def)
  have pair: "\<And>a b. a \<in> set D \<Longrightarrow> b \<in> set D \<Longrightarrow> a \<noteq> b \<Longrightarrow> apart a b"
  proof -
    fix a b assume "a \<in> set D" "b \<in> set D" "a \<noteq> b"
    then obtain i j where ij: "i < length D" "j < length D" "D ! i = a" "D ! j = b"
      by (metis in_set_conv_nth)
    then have "i \<noteq> j" using \<open>a \<noteq> b\<close> by auto
    then consider "i < j" | "j < i" by linarith
    then show "apart a b"
    proof cases
      case 1 then show ?thesis using ap ij by (auto simp: sorted_wrt_iff_nth_less)
    next
      case 2 then have "apart b a" using ap ij by (auto simp: sorted_wrt_iff_nth_less)
      then show ?thesis by (rule sym)
    qed
  qed
  have so: "sorted (map (\<lambda>d. (d_from d, d_to d)) ?out)" by simp
  have d2: "distinct ?out" using dist by simp
  show ?thesis
    unfolding sorted_wrt_iff_nth_less
  proof (intro allI impI)
    fix i j assume ij: "i < j" "j < length ?out"
    let ?a = "?out ! i" and ?b = "?out ! j"
    have mem: "?a \<in> set D" "?b \<in> set D"
      using ij by (metis dual_order.strict_trans nth_mem set_sort)+
    have neq: "?a \<noteq> ?b" using d2 ij by (simp add: nth_eq_iff_index_eq)
    have ab: "apart ?a ?b" using pair mem neq by blast
    have "(d_from ?a, d_to ?a) \<le> (d_from ?b, d_to ?b)"
      using so ij by (simp add: sorted_iff_nth_mono_less del: sorted_map sorted_sort_key)
    then have le: "d_from ?a \<le> d_from ?b" by (auto simp: less_eq_prod_def)
    have "d_from ?b < d_to ?b" "d_from ?a < d_to ?a" using ne mem by auto
    then show "d_to ?a \<le> d_from ?b"
      using ab le by (auto simp: apart_def rangesOverlap_def)
  qed
qed

lemma line_output_chain:
  "sorted_wrt (\<lambda>a b. d_to a \<le> d_from b) (line_output style tokenizer hira re selections ln)"
  unfolding line_output_def
  by (rule sort_apart) (use kept_within in \<open>auto simp: within_line_def kept_apart\<close>)

lemma line_output_within:
  "d \<in> set (line_output style tokenizer hira re selections ln) \<Longrightarrow> within_line ln d"
  unfolding line_output_def using kept_within by simp

section \<open>Properties of a pass\<close>

lemma unfenced_subset: "set (unfenced view b ns) \<subseteq> set ns"
  by (induction ns arbitrary: b) auto

lemma unfenced_sorted_wrt: "sorted_wrt P ns \<Longrightarrow> sorted_wrt P (unfenced view b ns)"
proof (induction ns arbitrary: b)
  case Nil
  then show ?case by simp
next
  case (Cons n ns)
  then show ?case using unfenced_subset[of view _ ns] by auto
qed

lemma concat_chain:
  assumes "sorted_wrt (\<lambda>a b. l_from (line view a) + length (l_text (line view a))
                                  \<le> l_from (line view b)) ns"
    and "\<And>n. sorted_wrt (\<lambda>a b. d_to a \<le> d_from b) (L n)"
    and "\<And>n d. d \<in> set (L n) \<Longrightarrow> within_line (line view n) d"
  shows "sorted_wrt (\<lambda>a b. d_to a \<le> d_from b) (concat (map L ns))"
  using assms(1)
proof (induction ns)
  case Nil
  then show ?case by simp
next
  case (Cons n ns)
  have cross: "d_to x \<le> d_from y" if xy: "x \<in> set (L n)" "y \<in> set (concat (map L ns))" for x y
  proof -
    obtain k where k: "k \<in> set ns" "y \<in> set (L k)" using xy(2) by auto
    have "l_from (line view n) + length (l_text (line view n)) \<le> l_from (line view k)"
      using Cons.prems k(1) by simp
    moreover have "d_to x \<le> l_from (line view n) + length (l_text (line view n))"
      using assms(3)[OF xy(1)] by (simp add: within_line_def)
    moreover have "l_from (line view k) \<le> d_from y"
      using assms(3)[OF k(2)] by (simp add: within_line_def)
    ultimately show ?thesis by linarith
  qed
  show ?case
    using Cons assms(2)[of n] cross by (simp add: sorted_wrt_append)
qed

lemma chain_sorted_apart:
  assumes "sorted_wrt (\<lambda>a b. d_to a \<le> d_from b) out" and "\<forall>d \<in> set out. d_from d < d_to d"
  shows "sorted (map (\<lambda>d. (d_from d, d_to d)) out)"
    and "sorted_wrt (\<lambda>a b. \<not> rangesOverlap (d_from a) (d_to a) (d_from b) (d_to b)) out"
proof -
  have "sorted_wrt (\<lambda>a b. (d_from a, d_to a) \<le> (d_from b, d_to b)) out"
    using assms(1)
  proof (rule sorted_wrt_mono_rel[rotated])
    fix a b assume "a \<in> set out" "b \<in> set out" "d_to a \<le> d_from b"
    then show "(d_from a, d_to a) \<le> (d_from b, d_to b)"
      using assms(2) by (auto simp: less_eq_prod_def)
  qed
  then show "sorted (map (\<lambda>d. (d_from d, d_to d)) out)"
    by (simp add: sorted_wrt_map sorted_map)
  show "sorted_wrt (\<lambda>a b. \<not> rangesOverlap (d_from a) (d_to a) (d_from b) (d_to b)) out"
    using assms(1)
    by (rule sorted_wrt_mono_rel[rotated]) (simp add: rangesOverlap_def)
qed

lemma buildDecorations_Inr:
  assumes "buildDecorations style tokenizer hira re view = (Inr out, re')"
  shows "out = concat (map (\<lambda>n. line_output style tokenizer hira re
                                     (selection_ranges view) (line view n))
                           (unfenced view False (visited_lines view)))"
proof -
  from assms obtain f b where
    "lines_loop style tokenizer hira view (visited_lines view)
       (False, \<lparr> added = [], layers = [] \<rparr>, re) = (Inr (f, b), re')" and "out = added b"
    by (auto simp: buildDecorations_def ranges_loop_eq visited_lines_def
             split: prod.splits sum.splits)
  then show ?thesis using lines_loop_Inr by fastforce
qed

text \<open>
  When the lines a pass visits lie one after the other in the document (of two visited
  lines the first ends before the second starts, so no line is visited twice), the
  sequence of a pass that returns is sorted by \<open>from\<close>, then by \<open>to\<close>, and no two of
  its intervals overlap.
\<close>

lemma ordered_lines_sorted:
  assumes "buildDecorations style tokenizer hira re view = (Inr out, re')"
    and "sorted_wrt (\<lambda>a b. l_from (line view a) + length (l_text (line view a))
                               \<le> l_from (line view b)) (visited_lines view)"
  shows "sorted (map (\<lambda>d. (d_from d, d_to d)) out)
       \<and> sorted_wrt (\<lambda>a b. \<not> rangesOverlap (d_from a) (d_to a) (d_from b) (d_to b)) out"
proof -
  let ?L = "\<lambda>n. line_output style tokenizer hira re (selection_ranges view) (line view n)"
  let ?ns = "unfenced view False (visited_lines view)"
  have out: "out = concat (map ?L ?ns)" using assms(1) by (rule buildDecorations_Inr)
  have geo: "sorted_wrt (\<lambda>a b. l_from (line view a) + length (l_text (line view a))
                               \<le> l_from (line view b)) ?ns"
    using assms(2) by (rule unfenced_sorted_wrt)
  have chain: "sorted_wrt (\<lambda>a b. d_to a \<le> d_from b) out"
    unfolding out using geo
    by (rule concat_chain) (simp_all add: line_output_chain line_output_within)
  have ne: "\<forall>d \<in> set out. d_from d < d_to d"
    unfolding out using line_output_within by (fastforce simp: within_line_def)
  show ?thesis using chain_sorted_apart[OF chain ne] by simp
qed

lemma selected_kept:
  "d \<in> set (line_output style tokenizer hira re selections ln) \<Longrightarrow>
     \<not> selected selections (d_from d) (d_to d)"
  by (auto simp: line_output_def manual_kept_def auto_kept_def auto_keep_def)

text \<open>
  What the entries of a pass that returns have in common: each overlaps no selection
  range and comes from a visited line outside a fence; it is the entry of a manual match
  of that line, or the entry of an automatic match that overlaps no inline backtick
  range of the line.
\<close>

lemma emitted_entries:
  assumes "buildDecorations style tokenizer hira re view = (Inr out, re')"
    and "d \<in> set out"
  shows "\<not> selected (selection_ranges view) (d_from d) (d_to d)
       \<and> (\<exists>n \<in> set (unfenced view False (visited_lines view)).
            d \<in> set (map (manual_deco (l_from (line view n)))
                         (manual_matches style (l_text (line view n))))
            \<or> (d \<in> set (map (auto_deco tokenizer hira (l_from (line view n)))
                             (auto_matches re (l_text (line view n))))
               \<and> \<not> list_ex (\<lambda>(bf, bt). rangesOverlap (bf + l_from (line view n))
                                           (bt + l_from (line view n)) (d_from d) (d_to d))
                      (inlineBacktickRanges (l_text (line view n)))))"
proof -
  let ?L = "\<lambda>n. line_output style tokenizer hira re (selection_ranges view) (line view n)"
  let ?ns = "unfenced view False (visited_lines view)"
  have out: "out = concat (map ?L ?ns)" using assms(1) by (rule buildDecorations_Inr)
  then obtain n where n: "n \<in> set ?ns" "d \<in> set (?L n)" using assms(2) by auto
  have s: "\<not> selected (selection_ranges view) (d_from d) (d_to d)"
    using n(2) by (rule selected_kept)
  have "d \<in> set (manual_kept style (selection_ranges view) (line view n))
        \<or> d \<in> set (auto_kept style tokenizer hira re (selection_ranges view) (line view n))"
    using n(2) by (simp add: line_output_def)
  then have "d \<in> set (map (manual_deco (l_from (line view n)))
                         (manual_matches style (l_text (line view n))))
            \<or> (d \<in> set (map (auto_deco tokenizer hira (l_from (line view n)))
                             (auto_matches re (l_text (line view n))))
               \<and> \<not> list_ex (\<lambda>(bf, bt). rangesOverlap (bf + l_from (line view n))
                                           (bt + l_from (line view n)) (d_from d) (d_to d))
                      (inlineBacktickRanges (l_text (line view n))))"
  proof
    assume "d \<in> set (manual_kept style (selection_ranges view) (line view n))"
    then show ?thesis by (auto simp: manual_kept_def)
  next
    assume "d \<in> set (auto_kept style tokenizer hira re (selection_ranges view) (line view n))"
    then show ?thesis by (auto simp: auto_kept_def auto_keep_def)
  qed
  then show ?thesis using s n(1) by blast
qed

lemma auto_keep_range:
  "match_range (l_from ln) a = match_range (l_from ln) a' \<Longrightarrow>
     auto_keep selections manualRanges ln a = auto_keep selections manualRanges ln a'"
  by (simp add: auto_keep_def)

lemma auto_kept_iff:
  assumes "a \<in> set (auto_matches re (l_text ln))"
  shows "(auto_deco tokenizer hira (l_from ln) a
            \<in> set (auto_kept style tokenizer hira re selections ln))
       = auto_keep selections
           (map (match_range (l_from ln)) (manual_matches style (l_text ln))) ln a"
proof
  assume "auto_deco tokenizer hira (l_from ln) a
            \<in> set (auto_kept style tokenizer hira re selections ln)"
  then obtain a' where a':
      "auto_keep selections (map (match_range (l_from ln)) (manual_matches style (l_text ln))) ln a'"
      "auto_deco tokenizer hira (l_from ln) a = auto_deco tokenizer hira (l_from ln) a'"
    by (auto simp: auto_kept_def)
  have "d_from (auto_deco tokenizer hira (l_from ln) a) = d_from (auto_deco tokenizer hira (l_from ln) a')"
       "d_to (auto_deco tokenizer hira (l_from ln) a) = d_to (auto_deco tokenizer hira (l_from ln) a')"
    using a'(2) by simp_all
  then have "match_range (l_from ln) a = match_range (l_from ln) a'"
    by (simp add: prod_eq_iff)
  then show "auto_keep selections
           (map (match_range (l_from ln)) (manual_matches style (l_text ln))) ln a"
    using a'(1) auto_keep_range by blast
next
  assume "auto_keep selections
           (map (match_range (l_from ln)) (manual_matches style (l_text ln))) ln a"
  then show "auto_deco tokenizer hira (l_from ln) a
            \<in> set (auto_kept style tokenizer hira re selections ln)"
    using assms by (simp add: auto_kept_def)
qed

text \<open>
  Claim C2, amended. A pass gives to the builder, for each line outside a fence, the
  sorted manual and automatic entries of the line. The automatic entries of such a line
  are all emitted, and an automatic match of the line is among them exactly when it
  passes \<open>auto_keep\<close>: its interval overlaps no selection range, no inline backtick range
  and no manual match of the line, where the manual matches are all of them, also those
  that were not emitted because they overlap a selection.
\<close>

theorem buildDecorations_automatic:
  assumes "buildDecorations style tokenizer hira re view = (Inr out, re')"
    and "n \<in> set (unfenced view False (visited_lines view))"
    and "a \<in> set (auto_matches re (l_text (line view n)))"
  shows "out = concat (map (\<lambda>k.
                  sort_key (\<lambda>d. (d_from d, d_to d))
                    (manual_kept style (selection_ranges view) (line view k)
                     @ auto_kept style tokenizer hira re (selection_ranges view) (line view k)))
                (unfenced view False (visited_lines view)))
       \<and> set (auto_kept style tokenizer hira re (selection_ranges view) (line view n)) \<subseteq> set out
       \<and> (auto_deco tokenizer hira (l_from (line view n)) a
              \<in> set (auto_kept style tokenizer hira re (selection_ranges view) (line view n)))
         = auto_keep (selection_ranges view)
             (map (match_range (l_from (line view n)))
                  (manual_matches style (l_text (line view n))))
             (line view n) a"
proof -
  let ?L = "\<lambda>k. line_output style tokenizer hira re (selection_ranges view) (line view k)"
  have out: "out = concat (map ?L (unfenced view False (visited_lines view)))"
    using assms(1) by (rule buildDecorations_Inr)
  have 1: "out = concat (map (\<lambda>k.
                  sort_key (\<lambda>d. (d_from d, d_to d))
                    (manual_kept style (selection_ranges view) (line view k)
                     @ auto_kept style tokenizer hira re (selection_ranges view) (line view k)))
                (unfenced view False (visited_lines view)))"
    using out by (simp add: line_output_def)
  have "set (?L n) \<subseteq> set out" using out assms(2) by auto
  then have 2: "set (auto_kept style tokenizer hira re (selection_ranges view) (line view n)) \<subseteq> set out"
    by (simp add: line_output_def)
  have 3: "(auto_deco tokenizer hira (l_from (line view n)) a
              \<in> set (auto_kept style tokenizer hira re (selection_ranges view) (line view n)))
         = auto_keep (selection_ranges view)
             (map (match_range (l_from (line view n)))
                  (manual_matches style (l_text (line view n))))
             (line view n) a"
    using assms(3) by (rule auto_kept_iff)
  show ?thesis using 1 2 3 by blast
qed

section \<open>Scan positions\<close>

lemma pushAuto_loop_lastIndex:
  "pushAuto_loop tokenizer hira src slc (li, lastEnd, frag) = Inr (li', lastEnd', frag') \<Longrightarrow> li' = 0"
proof (induction tokenizer hira src slc "(li, lastEnd, frag)" arbitrary: li lastEnd frag
       rule: pushAuto_loop.induct)
  case (1 tokenizer hira src slc li lastEnd frag)
  obtain r auto' where e: "exec \<lparr> rx_source = src, rx_global = True, lastIndex = li \<rparr> slc = (r, auto')"
    by (cases "exec \<lparr> rx_source = src, rx_global = True, lastIndex = li \<rparr> slc")
  show ?case
  proof (cases r)
    case None
    then have "lastIndex auto' = 0" using e by (auto simp: exec_def split: option.splits)
    then show ?thesis using "1.prems" e None
      by (simp add: pushAuto_loop.simps[of tokenizer hira src slc li lastEnd frag])
  next
    case (Some a)
    show ?thesis
    proof (cases "pushAuto_match tokenizer hira slc lastEnd frag a")
      case (Inl x)
      then show ?thesis using "1.prems" e Some
        by (simp add: pushAuto_loop.simps[of tokenizer hira src slc li lastEnd frag])
    next
      case (Inr f)
      then have "pushAuto_loop tokenizer hira src slc (lastIndex auto', m_index a + length (m_0 a), f)
                   = Inr (li', lastEnd', frag')"
        using "1.prems" e Some
        by (simp add: pushAuto_loop.simps[of tokenizer hira src slc li lastEnd frag])
      then show ?thesis using "1.hyps"[OF e[symmetric] Some Inr] by simp
    qed
  qed
qed

text \<open>
  Claim C8. A pass of Live Preview leaves the shared expression \<open>REGEX_AUTOMATIC\<close> as it
  found it, so a second pass that starts from what the first one left returns the same
  result; \<open>convertFurigana\<close> leaves the two expressions it is given untouched and its
  result does not depend on their flags and scan positions, only on their sources; and
  inside one conversion the expression shared by the calls of \<open>pushAuto\<close> is back at
  scan position \<open>0\<close> after every call that starts there.
\<close>

theorem pipeline_deterministic:
  "snd (buildDecorations style tokenizer hira re view) = re
   \<and> buildDecorations style tokenizer hira (snd (buildDecorations style tokenizer hira re view)) view
       = buildDecorations style tokenizer hira re view
   \<and> snd (convertFurigana tokenizer hira text rm ra) = (rm, ra)
   \<and> fst (convertFurigana tokenizer hira text
            (rm\<lparr> rx_global := g, lastIndex := i \<rparr>) (ra\<lparr> rx_global := h, lastIndex := j \<rparr>))
       = fst (convertFurigana tokenizer hira text rm ra)
   \<and> (case pushAuto tokenizer hira src (0, frag) slc of
         Inl e \<Rightarrow> True
       | Inr (li, frag') \<Rightarrow> li = 0)"
proof -
  have 1: "snd (buildDecorations style tokenizer hira re view) = re"
    by (rule buildDecorations_auto)
  have 3: "snd (convertFurigana tokenizer hira text rm ra) = (rm, ra)"
    by (simp add: convertFurigana_def Let_def)
  have 4: "fst (convertFurigana tokenizer hira text
            (rm\<lparr> rx_global := g, lastIndex := i \<rparr>) (ra\<lparr> rx_global := h, lastIndex := j \<rparr>))
       = fst (convertFurigana tokenizer hira text rm ra)"
    by (simp add: convertFurigana_def Let_def new_RegExp_g_def)
  have 5: "(case pushAuto tokenizer hira src (0, frag) slc of
         Inl e \<Rightarrow> True
       | Inr (li, frag') \<Rightarrow> li = 0)"
    by (auto simp: pushAuto_def split: sum.splits dest: pushAuto_loop_lastIndex)
  show ?thesis using 1 3 4 5 by simp
qed

section \<open>Manual overrides\<close>

text \<open>
  The alignment of Reading Mode when the counts differ: reading \<open>i\<close> for the code unit
  \<open>i\<close> while there are readings, the last reading after that.
\<close>

lemma manual_arrays_padding:
  assumes "1 < length parts" and "length parts \<noteq> length b"
  shows "manual_arrays b parts =
     (split_chars b,
      map (\<lambda>i. if i < length parts then parts ! i else parts ! (length parts - 1)) [0 ..< length b])"
proof -
  have lt: "length parts - 1 < length parts" using assms(1) by simp
  have "nullish (index parts i) (nullish (index parts (length parts - 1)) []) =
        (if i < length parts then parts ! i else parts ! (length parts - 1))" for i
    using lt by (simp add: index_def nullish_def del: One_nat_def)
  then show ?thesis using assms by (simp add: manual_arrays_def split_chars_def Let_def)
qed

text \<open>
  Claim C7. In the curly style the text \<open>{U+6F22 U+5B57|U+304B U+3093|U+3058}\<close> is one
  match from offset 0, with the base chunks \<open>[U+6F22], [U+5B57]\<close> and the reading chunks
  \<open>[U+304B U+3093], [U+3058]\<close>; the text \<open>{U+4ECA U+65E5|U+304D U+3087 U+3046}\<close> is one
  match with the single base chunk \<open>[U+4ECA U+65E5]\<close> and the single reading chunk. Reading
  Mode builds its \<open>ruby\<close> from these arrays and Live Preview its widget, for every
  tokenizer and kana conversion.
\<close>

theorem manual_override_curly_examples:
  "map (\<lambda>m. (m_index m, m_0 m, manual_arrays (m_1 m) (reading_parts m)))
       (matchAll_loop CurlyManual [0x7B, 0x6F22, 0x5B57, 0x7C, 0x304B, 0x3093, 0x7C, 0x3058, 0x7D] 0)
     = [(0, [0x7B, 0x6F22, 0x5B57, 0x7C, 0x304B, 0x3093, 0x7C, 0x3058, 0x7D],
         [[0x6F22], [0x5B57]], [[0x304B, 0x3093], [0x3058]])]
   \<and> fst (convertFurigana tokenizer hira
            [0x7B, 0x6F22, 0x5B57, 0x7C, 0x304B, 0x3093, 0x7C, 0x3058, 0x7D]
            (getManualRegex curly) getAutoRegex)
     = Inr (Fragment [makeRuby [[0x6F22], [0x5B57]] [[0x304B, 0x3093], [0x3058]]])
   \<and> fst (buildDecorations curly tokenizer hira getAutoRegex
            (single_line_view [0x7B, 0x6F22, 0x5B57, 0x7C, 0x304B, 0x3093, 0x7C, 0x3058, 0x7D] []))
     = Inr [\<lparr> d_from = 0, d_to = 9, d_kanji = [[0x6F22], [0x5B57]],
              d_furi = [[0x304B, 0x3093], [0x3058]] \<rparr>]
   \<and> map (\<lambda>m. (m_index m, m_0 m, manual_arrays (m_1 m) (reading_parts m)))
       (matchAll_loop CurlyManual [0x7B, 0x4ECA, 0x65E5, 0x7C, 0x304D, 0x3087, 0x3046, 0x7D] 0)
     = [(0, [0x7B, 0x4ECA, 0x65E5, 0x7C, 0x304D, 0x3087, 0x3046, 0x7D],
         [[0x4ECA, 0x65E5]], [[0x304D, 0x3087, 0x3046]])]
   \<and> fst (convertFurigana tokenizer hira
            [0x7B, 0x4ECA, 0x65E5, 0x7C, 0x304D, 0x3087, 0x3046, 0x7D]
            (getManualRegex curly) getAutoRegex)
     = Inr (Fragment [makeRuby [[0x4ECA, 0x65E5]] [[0x304D, 0x3087, 0x3046]]])
   \<and> fst (buildDecorations curly tokenizer hira getAutoRegex
            (single_line_view [0x7B, 0x4ECA, 0x65E5, 0x7C, 0x304D, 0x3087, 0x3046, 0x7D] []))
     = Inr [\<lparr> d_from = 0, d_to = 8, d_kanji = [[0x4ECA, 0x65E5]],
              d_furi = [[0x304D, 0x3087, 0x3046]] \<rparr>]"
  by code_simp

text \<open>
  Claim C6. A base of three code units with two readings,
  \<open>{U+6F22 U+5B57 U+4F53|U+304B U+3093|U+3058}\<close>: Reading Mode pads the readings with the
  last one, \<open>[U+304B U+3093], [U+3058], [U+3058]\<close>, as the comment in \<open>convertFurigana\<close>
  says; Live Preview hands the two readings to the widget as they are, so the arrays of
  the widget have the lengths 3 and 2.
\<close>

theorem live_preview_manual_unpadded:
  "fst (buildDecorations curly tokenizer hira getAutoRegex
          (single_line_view
             [0x7B, 0x6F22, 0x5B57, 0x4F53, 0x7C, 0x304B, 0x3093, 0x7C, 0x3058, 0x7D] []))
     = Inr [\<lparr> d_from = 0, d_to = 10, d_kanji = [[0x6F22], [0x5B57], [0x4F53]],
              d_furi = [[0x304B, 0x3093], [0x3058]] \<rparr>]
   \<and> fst (convertFurigana tokenizer hira
            [0x7B, 0x6F22, 0x5B57, 0x4F53, 0x7C, 0x304B, 0x3093, 0x7C, 0x3058, 0x7D]
            (getManualRegex curly) getAutoRegex)
     = Inr (Fragment [makeRuby [[0x6F22], [0x5B57], [0x4F53]]
                               [[0x304B, 0x3093], [0x3058], [0x3058]]])"
  by code_simp

text \<open>
  Claim C1. A candidate whose interval overlaps an exclusion zone of the pass (a
  selection range, an inline backtick span of its line, a line inside a fence) is not
  emitted, whatever its origin. The manual loop of \<open>buildDecorations\<close> does not make the
  backtick test: the manual override between two backticks is emitted with the interval
  \<open>[1, 10)\<close>, which overlaps the backtick span \<open>[0, 11)\<close> of its line. The paths beside
  it do keep out of code: the automatic loop of the same pass drops the kanji run
  between two backticks, and a manual override on a line inside a fence is not emitted.
\<close>

theorem manual_override_in_backticks_emitted:
  "fst (buildDecorations curly None (\<lambda>s. s) getAutoRegex
          (single_line_view
             [0x60, 0x7B, 0x6F22, 0x5B57, 0x7C, 0x304B, 0x3093, 0x7C, 0x3058, 0x7D, 0x60] []))
     = Inr [\<lparr> d_from = 1, d_to = 10, d_kanji = [[0x6F22], [0x5B57]],
              d_furi = [[0x304B, 0x3093], [0x3058]] \<rparr>]
   \<and> inlineBacktickRanges
        [0x60, 0x7B, 0x6F22, 0x5B57, 0x7C, 0x304B, 0x3093, 0x7C, 0x3058, 0x7D, 0x60] = [(0, 11)]
   \<and> rangesOverlap 0 11 1 10
   \<and> fst (buildDecorations curly None (\<lambda>s. s) getAutoRegex
            (single_line_view [0x60, 0x6F22, 0x5B57, 0x60] []))
     = Inr []
   \<and> fst (buildDecorations curly None (\<lambda>s. s) getAutoRegex
            (two_line_view [0x60, 0x60, 0x60]
               [0x7B, 0x6F22, 0x5B57, 0x7C, 0x304B, 0x3093, 0x7C, 0x3058, 0x7D] []))
     = Inr []"
  by code_simp

text \<open>
  Claim C3. The sequence a pass emits is sorted by \<open>from\<close>, then by \<open>to\<close>, and no two
  emitted intervals overlap. The pass sorts the entries of each line on their own, and
  it processes a line once for every visible range that lies on it. In a line of 23
  code units of which \<open>[0, 2]\<close> and \<open>[22, 23]\<close> are visible, the one entry \<open>[0, 2)\<close> is
  given to the builder twice; the builder accepts it and the pass returns a sequence
  in which two intervals overlap. With three entries on such a line the second round
  starts before the last range added and the builder throws.
\<close>

theorem line_visited_twice:
  "buildDecorations curly None (\<lambda>s. s) getAutoRegex
       (two_ranges_view ([0x6F22, 0x5B57] @ replicate 21 0x78)
          \<lparr> r_from = 0, r_to = 2 \<rparr> \<lparr> r_from = 22, r_to = 23 \<rparr>)
     = (Inr [\<lparr> d_from = 0, d_to = 2, d_kanji = [[0x6F22, 0x5B57]],
               d_furi = [[0x6F22, 0x5B57]] \<rparr>,
             \<lparr> d_from = 0, d_to = 2, d_kanji = [[0x6F22, 0x5B57]],
               d_furi = [[0x6F22, 0x5B57]] \<rparr>], getAutoRegex)
   \<and> rangesOverlap 0 2 0 2
   \<and> fst (buildDecorations curly None (\<lambda>s. s) getAutoRegex
            (two_ranges_view mixed_text
               \<lparr> r_from = 0, r_to = 3 \<rparr> \<lparr> r_from = 12, r_to = 14 \<rparr>))
     = Inl Error"
  by code_simp

text \<open>
  Claim C2 as it was stated fails: with the cursor at offset 8 the manual override
  \<open>[0, 9)\<close> is not emitted; the automatic match \<open>[1, 3)\<close> overlaps no selection range and
  no backtick range, and no emitted manual candidate, yet nothing is emitted.
\<close>

theorem dropped_manual_counterexample:
  "fst (buildDecorations curly None (\<lambda>s. s) getAutoRegex
          (single_line_view [0x7B, 0x6F22, 0x5B57, 0x7C, 0x304B, 0x3093, 0x7C, 0x3058, 0x7D]
             [\<lparr> r_from = 8, r_to = 8 \<rparr>]))
     = Inr []
   \<and> map (match_range 0)
         (manual_matches curly [0x7B, 0x6F22, 0x5B57, 0x7C, 0x304B, 0x3093, 0x7C, 0x3058, 0x7D])
     = [(0, 9)]
   \<and> selected [\<lparr> r_from = 8, r_to = 8 \<rparr>] 0 9
   \<and> map (match_range 0)
         (auto_matches getAutoRegex [0x7B, 0x6F22, 0x5B57, 0x7C, 0x304B, 0x3093, 0x7C, 0x3058, 0x7D])
     = [(1, 3), (4, 6), (7, 8)]
   \<and> rangesOverlap 0 9 1 3
   \<and> \<not> selected [\<lparr> r_from = 8, r_to = 8 \<rparr>] 1 3
   \<and> inlineBacktickRanges [0x7B, 0x6F22, 0x5B57, 0x7C, 0x304B, 0x3093, 0x7C, 0x3058, 0x7D] = []"
  by code_simp

text \<open>The theorem on the automatic entries at a concrete document.\<close>

theorem buildDecorations_automatic_witness:
  "buildDecorations curly None (\<lambda>s. s) getAutoRegex
       (single_line_view mixed_text [\<lparr> r_from = 13, r_to = 13 \<rparr>])
     = (Inr edited_output, getAutoRegex)
   \<and> 1 \<in> set (unfenced (single_line_view mixed_text [\<lparr> r_from = 13, r_to = 13 \<rparr>]) False
                  (visited_lines (single_line_view mixed_text [\<lparr> r_from = 13, r_to = 13 \<rparr>])))
   \<and> \<lparr> m_index = 0, m_0 = [0x3053, 0x308C, 0x306F], m_1 = [], m_2 = [] \<rparr>
       \<in> set (auto_matches getAutoRegex
                (l_text (line (single_line_view mixed_text [\<lparr> r_from = 13, r_to = 13 \<rparr>]) 1)))
   \<and> set (auto_kept curly None (\<lambda>s. s) getAutoRegex
             (selection_ranges (single_line_view mixed_text [\<lparr> r_from = 13, r_to = 13 \<rparr>]))
             (line (single_line_view mixed_text [\<lparr> r_from = 13, r_to = 13 \<rparr>]) 1))
       \<subseteq> set edited_output
   \<and> map (\<lambda>a. (match_range 0 a,
                auto_keep [\<lparr> r_from = 13, r_to = 13 \<rparr>]
                  (map (match_range 0) (manual_matches curly mixed_text))
                  \<lparr> l_from = 0, l_text = mixed_text \<rparr> a))
         (auto_matches getAutoRegex mixed_text)
       = [((0, 3), True), ((4, 6), False), ((7, 9), False), ((10, 11), False), ((12, 14), False)]"
  (is "?h1 \<and> ?h2 \<and> ?h3 \<and> ?c \<and> ?e")
proof -
  have h1: ?h1 by code_simp
  have h2: ?h2 by code_simp
  have h3: ?h3 by code_simp
  have c: ?c using buildDecorations_automatic [OF h1 h2 h3] by blast
  have e: ?e by code_simp
  show ?thesis by (rule conjI [OF h1 conjI [OF h2 conjI [OF h3 conjI [OF c e]]]])
qed

end
